theory Spec2Isabelle
  imports Main "HOL-Library.Word"
begin

section \<open>The cost-bounded cache store\<close>

text \<open>
  The repository layer holds a value of the interface
  \<^verbatim>\<open>cache.ICache\<close>, with string keys and pages of echos as values, and calls
  its \<^verbatim>\<open>Get\<close>, \<open>Set\<close> and \<open>Delete\<close>. The package \<^verbatim>\<open>internal/cache\<close> is not among
  the source files, so the store is modelled from section 4.1 of the specification.
\<close>

datatype cache_error = EntryTooLarge | InvalidCost | KeyNotFound

record ('k, 'v) CacheEntry =
  key :: 'k
  val :: 'v
  cost :: int

text \<open>
  Modelled from the spec: the CacheStore of section 4.1, whose implementation
  (\<^verbatim>\<open>internal/cache\<close>) is missing. The entries are kept in order of use, the least
  recently used one first; the documented eviction policy is least-recently-used.
\<close>

record ('k, 'v) CacheStore =
  capacity :: int
  entries :: "('k, 'v) CacheEntry list"

definition NewCache :: "int \<Rightarrow> ('k, 'v) CacheStore" where
  "NewCache n = \<lparr>capacity = n, entries = []\<rparr>"

definition total_cost :: "('k, 'v) CacheEntry list \<Rightarrow> int" where
  "total_cost es = sum_list (map cost es)"

text \<open>
  Modelled from the spec: eviction drops the least recently used entries (the front
  of the list) until what is left fits into the budget.
\<close>

fun evict :: "int \<Rightarrow> ('k, 'v) CacheEntry list \<Rightarrow> ('k, 'v) CacheEntry list" where
  "evict b [] = []"
| "evict b (e # es) = (if total_cost (e # es) \<le> b then e # es else evict b es)"

text \<open>
  Modelled from the spec: \<^verbatim>\<open>Get(key) -> (value, found)\<close>. A hit makes the entry the
  most recently used one. The source tests the result with \<^verbatim>\<open>err == nil\<close>, so a miss
  is the error \<open>KeyNotFound\<close>.
\<close>

definition Get :: "('k, 'v) CacheStore \<Rightarrow> 'k \<Rightarrow> (cache_error + 'v) \<times> ('k, 'v) CacheStore" where
  "Get c k =
     (case find (\<lambda>e. key e = k) (entries c) of
        None \<Rightarrow> (Inl KeyNotFound, c)
      | Some e \<Rightarrow> (Inr (val e), c\<lparr>entries := filter (\<lambda>x. key x \<noteq> k) (entries c) @ [e]\<rparr>))"

text \<open>
  Modelled from the spec: \<^verbatim>\<open>Set(key, value, cost) -> error\<close>. A cost of zero or less is
  rejected; an entry whose cost alone exceeds the capacity fails with \<open>EntryTooLarge\<close> and
  leaves the store as it was; otherwise the entry replaces the one of the same key, after
  evicting until it fits.
\<close>

definition Set :: "('k, 'v) CacheStore \<Rightarrow> 'k \<Rightarrow> 'v \<Rightarrow> int \<Rightarrow> cache_error option \<times> ('k, 'v) CacheStore" where
  "Set c k v n =
     (if n \<le> 0 then (Some InvalidCost, c)
      else if capacity c < n then (Some EntryTooLarge, c)
      else (None, c\<lparr>entries :=
              evict (capacity c - n) (filter (\<lambda>x. key x \<noteq> k) (entries c))
              @ [\<lparr>key = k, val = v, cost = n\<rparr>]\<rparr>))"

text \<open>Modelled from the spec: \<^verbatim>\<open>Delete(key)\<close>, a no-op on a key that is not resident.\<close>

definition Delete :: "('k, 'v) CacheStore \<Rightarrow> 'k \<Rightarrow> ('k, 'v) CacheStore" where
  "Delete c k = c\<lparr>entries := filter (\<lambda>x. key x \<noteq> k) (entries c)\<rparr>"

text \<open>Modelled from the spec: \<^verbatim>\<open>Clear()\<close> drops all entries.\<close>

definition Clear :: "('k, 'v) CacheStore \<Rightarrow> ('k, 'v) CacheStore" where
  "Clear c = c\<lparr>entries := []\<rparr>"

definition resident :: "('k, 'v) CacheStore \<Rightarrow> 'k \<Rightarrow> bool" where
  "resident c k = (find (\<lambda>e. key e = k) (entries c) \<noteq> None)"

text \<open>The value held for a key, and the keys held.\<close>

definition lookup :: "('k, 'v) CacheStore \<Rightarrow> 'k \<Rightarrow> 'v option" where
  "lookup c k = map_option val (find (\<lambda>e. key e = k) (entries c))"

definition keys :: "('k, 'v) CacheStore \<Rightarrow> 'k set" where
  "keys c = key ` set (entries c)"

text \<open>A sequence of \<open>Set\<close> calls, each given as key, value and cost.\<close>

fun set_all :: "('k, 'v) CacheStore \<Rightarrow> ('k \<times> 'v \<times> int) list \<Rightarrow> ('k, 'v) CacheStore" where
  "set_all c [] = c"
| "set_all c ((k, v, n) # xs) = set_all (snd (Set c k v n)) xs"


section \<open>The data model\<close>

text \<open>
  The model types (\<^verbatim>\<open>internal/model/echo\<close>, \<^verbatim>\<open>internal/model/common\<close>) are not among
  the source files. The records below have the fields that the repository code reads or
  writes: \<^verbatim>\<open>echo.ID\<close>, \<open>Content\<close>, \<open>Private\<close>, \<open>Extension\<close>, \<open>ExtensionType\<close>, \<open>Images\<close>,
  the columns \<^verbatim>\<open>fav_count\<close> and \<^verbatim>\<open>created_at\<close>, and \<^verbatim>\<open>img.MessageID\<close>. Go's \<^verbatim>\<open>uint\<close>
  identifiers are natural numbers (the code does no arithmetic on them), a \<^verbatim>\<open>string\<close>
  is its sequence of bytes, and a time is a number of seconds, 0 being the zero time.
\<close>

record Image =
  MessageID :: nat
  ImageURL :: string

record Echo =
  ID :: nat
  Content :: string
  Private :: bool
  Images :: "Image list"
  Extension :: string
  ExtensionType :: string
  FavCount :: int
  CreatedAt :: nat

record PageQueryResult =
  Items :: "Echo list"
  Total :: int

text \<open>
  Go's \<^verbatim>\<open>int\<close> is a 64-bit two's complement integer on the platforms the server is built
  for: \<open>+\<close>, \<open>-\<close> and \<open>*\<close> wrap around, \<open>sint\<close> reads the value.
\<close>

type_synonym go_int = "64 word"

datatype error =
    ErrRecordNotFound
  | ErrDuplicatedKey
  | StoreError string
  | ECHO_NOT_FOUND

section \<open>The durable store\<close>

text \<open>
  The relational store behind \<^verbatim>\<open>gorm.DB\<close> is an external collaborator. Its state is the
  two tables the repository touches. A row of \<open>tbl_echos\<close> has no images of its own: they are
  the rows of \<open>tbl_images\<close> with its \<open>MessageID\<close>, joined in by \<^verbatim>\<open>Preload("Images")\<close>.
  Every statement sent to the store may fail for reasons outside the program (connection
  lost, disk full): \<open>faults\<close> is the outcome of the statements to come, \<open>None\<close> for one that
  goes through, and an exhausted schedule means a healthy store. \<open>stmts\<close> counts the
  statements issued. \<open>like\<close> is the store's \<^verbatim>\<open>LIKE\<close> operator (pattern, then text), which
  depends on the dialect and its collation. \<open>now\<close> is the store's clock.
\<close>

record database =
  tbl_echos :: "Echo list"
  tbl_images :: "Image list"
  faults :: "string option list"
  stmts :: nat
  like :: "string \<Rightarrow> string \<Rightarrow> bool"
  now :: nat

text \<open>Issuing one statement: it is counted, and the schedule says whether it fails.\<close>

definition exec :: "database \<Rightarrow> string option \<times> database" where
  "exec d =
     (case faults d of
        [] \<Rightarrow> (None, d\<lparr>stmts := Suc (stmts d)\<rparr>)
      | f # fs \<Rightarrow> (f, d\<lparr>faults := fs, stmts := Suc (stmts d)\<rparr>))"

definition preload :: "database \<Rightarrow> Echo \<Rightarrow> Echo" where
  "preload d e = e\<lparr>Images := filter (\<lambda>g. MessageID g = ID e) (tbl_images d)\<rparr>"

definition fresh_id :: "Echo list \<Rightarrow> nat" where
  "fresh_id rows = Suc (fold max (map ID rows) 0)"

text \<open>
  \<^verbatim>\<open>db.Create(echo)\<close>: one insert in its own transaction. A zero \<open>ID\<close> is assigned by the
  store, a given one must be unused; a zero \<open>CreatedAt\<close> becomes the current time; the
  echo's images are saved with it under its identifier.
\<close>

definition Create :: "database \<Rightarrow> Echo \<Rightarrow> error option \<times> database" where
  "Create d e =
     (let (f, d1) = exec d in
      case f of
        Some m \<Rightarrow> (Some (StoreError m), d1)
      | None \<Rightarrow>
          if ID e \<noteq> 0 \<and> ID e \<in> set (map ID (tbl_echos d1)) then (Some ErrDuplicatedKey, d1)
          else
            let i = (if ID e = 0 then fresh_id (tbl_echos d1) else ID e);
                row = e\<lparr>ID := i, Images := [],
                        CreatedAt := (if CreatedAt e = 0 then now d1 else CreatedAt e)\<rparr>
            in (None, d1\<lparr>tbl_echos := tbl_echos d1 @ [row],
                          tbl_images := tbl_images d1 @ map (\<lambda>g. g\<lparr>MessageID := i\<rparr>) (Images e)\<rparr>))"

text \<open>
  The rows selected by the conditions that \<open>GetEchosByPage\<close> adds to its query:
  \<^verbatim>\<open>content LIKE '%search%'\<close> when the search term is not empty, and \<^verbatim>\<open>private = false\<close>
  unless private echos are shown.
\<close>

definition matching :: "database \<Rightarrow> string \<Rightarrow> bool \<Rightarrow> Echo list" where
  "matching d search showPrivate =
     filter (\<lambda>e. (search = [] \<or> like d (''%'' @ search @ ''%'') (Content e))
                \<and> (showPrivate \<or> \<not> Private e)) (tbl_echos d)"

text \<open>
  \<^verbatim>\<open>Order("created_at DESC")\<close>. SQL leaves the order of rows with equal keys open; here
  they stay in the order of the table.
\<close>

definition Order_created_at_desc :: "Echo list \<Rightarrow> Echo list" where
  "Order_created_at_desc rows = sort_key (\<lambda>e. - int (CreatedAt e)) rows"

text \<open>
  \<^verbatim>\<open>Limit(n)\<close> and \<^verbatim>\<open>Offset(n)\<close> as gorm builds them: a negative limit gives no
  \<^verbatim>\<open>LIMIT\<close> clause, and an offset of zero or less gives no \<^verbatim>\<open>OFFSET\<close> clause.
\<close>

definition Limit :: "go_int \<Rightarrow> 'a list \<Rightarrow> 'a list" where
  "Limit n xs = (if 0 \<le> sint n then take (nat (sint n)) xs else xs)"

definition Offset :: "go_int \<Rightarrow> 'a list \<Rightarrow> 'a list" where
  "Offset n xs = (if 0 < sint n then drop (nat (sint n)) xs else xs)"

text \<open>
  The statement chain of \<open>GetEchosByPage\<close>:
  \<^verbatim>\<open>query.Count(&total).Preload("Images").Limit(pageSize).Offset(offset).Order(...).Find(&echos)\<close>.
  The count is one statement, the page another, the images of a non-empty page a third.
  The source never looks at the error: after a failed statement gorm skips the rest of
  the chain, and the variables it did not reach keep their zero values.
\<close>

definition Count_Find :: "database \<Rightarrow> string \<Rightarrow> bool \<Rightarrow> go_int \<Rightarrow> go_int
    \<Rightarrow> (Echo list \<times> int) \<times> database" where
  "Count_Find d search showPrivate pageSize offset =
     (let rows = matching d search showPrivate;
          (f1, d1) = exec d in
      case f1 of
        Some m \<Rightarrow> (([], 0), d1)
      | None \<Rightarrow>
          let total = int (length rows);
              (f2, d2) = exec d1 in
          case f2 of
            Some m \<Rightarrow> (([], total), d2)
          | None \<Rightarrow>
              let page = Limit pageSize (Offset offset (Order_created_at_desc rows)) in
              if page = [] then ((page, total), d2)
              else
                let (f3, d3) = exec d2 in
                case f3 of
                  Some m \<Rightarrow> ((page, total), d3)
                | None \<Rightarrow> ((map (preload d3) page, total), d3))"

text \<open>
  \<^verbatim>\<open>db.Preload("Images").First(&echo, id)\<close>: the row of that identifier, or
  \<open>ErrRecordNotFound\<close>; the images are a second statement.
\<close>

definition First :: "database \<Rightarrow> nat \<Rightarrow> (error + Echo) \<times> database" where
  "First d i =
     (let (f1, d1) = exec d in
      case f1 of
        Some m \<Rightarrow> (Inl (StoreError m), d1)
      | None \<Rightarrow>
          (case find (\<lambda>e. ID e = i) (tbl_echos d1) of
             None \<Rightarrow> (Inl ErrRecordNotFound, d1)
           | Some e \<Rightarrow>
               let (f2, d2) = exec d1 in
               case f2 of
                 Some m \<Rightarrow> (Inl (StoreError m), d2)
               | None \<Rightarrow> (Inr (preload d2 e), d2)))"

text \<open>\<^verbatim>\<open>db.Where("message_id = ?", id).Delete(&model.Image{})\<close>.\<close>

definition Delete_images :: "database \<Rightarrow> nat \<Rightarrow> error option \<times> database" where
  "Delete_images d i =
     (let (f, d1) = exec d in
      case f of
        Some m \<Rightarrow> (Some (StoreError m), d1)
      | None \<Rightarrow> (None, d1\<lparr>tbl_images := filter (\<lambda>g. MessageID g \<noteq> i) (tbl_images d1)\<rparr>))"

text \<open>\<^verbatim>\<open>db.Delete(&echo, id)\<close>: the error, or the number of rows affected.\<close>

definition Delete_echo :: "database \<Rightarrow> nat \<Rightarrow> (error + nat) \<times> database" where
  "Delete_echo d i =
     (let (f, d1) = exec d in
      case f of
        Some m \<Rightarrow> (Inl (StoreError m), d1)
      | None \<Rightarrow> (Inr (length (filter (\<lambda>e. ID e = i) (tbl_echos d1))),
                 d1\<lparr>tbl_echos := filter (\<lambda>e. ID e \<noteq> i) (tbl_echos d1)\<rparr>))"

text \<open>\<^verbatim>\<open>Select("count(*) > 0").Where("id = ?", id).Find(&exists)\<close>.\<close>

definition Exists_echo :: "database \<Rightarrow> nat \<Rightarrow> (error + bool) \<times> database" where
  "Exists_echo d i =
     (let (f, d1) = exec d in
      case f of
        Some m \<Rightarrow> (Inl (StoreError m), d1)
      | None \<Rightarrow> (Inr (0 < length (filter (\<lambda>e. ID e = i) (tbl_echos d1))), d1))"

text \<open>\<^verbatim>\<open>Where("id = ?", id).UpdateColumn("fav_count", gorm.Expr("fav_count + ?", 1))\<close>.\<close>

definition Increment_fav_count :: "database \<Rightarrow> nat \<Rightarrow> error option \<times> database" where
  "Increment_fav_count d i =
     (let (f, d1) = exec d in
      case f of
        Some m \<Rightarrow> (Some (StoreError m), d1)
      | None \<Rightarrow> (None, d1\<lparr>tbl_echos :=
                   map (\<lambda>e. if ID e = i then e\<lparr>FavCount := FavCount e + 1\<rparr> else e) (tbl_echos d1)\<rparr>))"

text \<open>
  The update of the columns \<open>content\<close>, \<open>private\<close>, \<open>extension\<close> and \<open>extension_type\<close> of the
  rows with the echo's identifier.
\<close>

definition Updates_echo :: "database \<Rightarrow> Echo \<Rightarrow> error option \<times> database" where
  "Updates_echo d u =
     (let (f, d1) = exec d in
      case f of
        Some m \<Rightarrow> (Some (StoreError m), d1)
      | None \<Rightarrow> (None, d1\<lparr>tbl_echos :=
                   map (\<lambda>e. if ID e = ID u
                             then e\<lparr>Content := Content u, Private := Private u,
                                    Extension := Extension u, ExtensionType := ExtensionType u\<rparr>
                             else e) (tbl_echos d1)\<rparr>))"

text \<open>\<^verbatim>\<open>tx.Create(&images)\<close>: a batch insert.\<close>

definition Create_images :: "database \<Rightarrow> Image list \<Rightarrow> error option \<times> database" where
  "Create_images d gs =
     (let (f, d1) = exec d in
      case f of
        Some m \<Rightarrow> (Some (StoreError m), d1)
      | None \<Rightarrow> (None, d1\<lparr>tbl_images := tbl_images d1 @ gs\<rparr>))"

text \<open>
  Transactions. \<^verbatim>\<open>Begin\<close>, \<^verbatim>\<open>Commit\<close> and \<^verbatim>\<open>Rollback\<close> are statements of their own.
  \<open>Rollback\<close> and a failed \<open>Commit\<close> put back the tables as they were at \<open>Begin\<close> (given
  as \<open>d0\<close>); the statements issued and the faults consumed stay.
\<close>

definition Begin :: "database \<Rightarrow> error option \<times> database" where
  "Begin d = (let (f, d1) = exec d in
              case f of Some m \<Rightarrow> (Some (StoreError m), d1) | None \<Rightarrow> (None, d1))"

definition restore :: "database \<Rightarrow> database \<Rightarrow> database" where
  "restore d0 d = d\<lparr>tbl_echos := tbl_echos d0, tbl_images := tbl_images d0\<rparr>"

definition Rollback :: "database \<Rightarrow> database \<Rightarrow> database" where
  "Rollback d0 d = restore d0 (snd (exec d))"

definition Commit :: "database \<Rightarrow> database \<Rightarrow> error option \<times> database" where
  "Commit d0 d = (let (f, d1) = exec d in
                  case f of Some m \<Rightarrow> (Some (StoreError m), restore d0 d1) | None \<Rightarrow> (None, d1))"

section \<open>Trimming white space\<close>

text \<open>
  \<^verbatim>\<open>strings.TrimSpace\<close> of Go's library removes the leading and the trailing white-space
  runes of a string, a rune being white space when \<^verbatim>\<open>unicode.IsSpace\<close> says so. On the
  bytes of the string that is the removal of the UTF-8 encodings listed here: a decoder
  that reads a rune at the front, or one at the back, finds a white-space rune exactly
  when the bytes begin, or end, with one of them.
\<close>

definition white_space :: "string list" where
  "white_space =
     [ [CHR 0x09], [CHR 0x0A], [CHR 0x0B], [CHR 0x0C], [CHR 0x0D], [CHR 0x20],
      [CHR 0xC2, CHR 0x85], [CHR 0xC2, CHR 0xA0],
      [CHR 0xE1, CHR 0x9A, CHR 0x80],
      [CHR 0xE2, CHR 0x80, CHR 0x80], [CHR 0xE2, CHR 0x80, CHR 0x81],
      [CHR 0xE2, CHR 0x80, CHR 0x82], [CHR 0xE2, CHR 0x80, CHR 0x83],
      [CHR 0xE2, CHR 0x80, CHR 0x84], [CHR 0xE2, CHR 0x80, CHR 0x85],
      [CHR 0xE2, CHR 0x80, CHR 0x86], [CHR 0xE2, CHR 0x80, CHR 0x87],
      [CHR 0xE2, CHR 0x80, CHR 0x88], [CHR 0xE2, CHR 0x80, CHR 0x89],
      [CHR 0xE2, CHR 0x80, CHR 0x8A],
      [CHR 0xE2, CHR 0x80, CHR 0xA8], [CHR 0xE2, CHR 0x80, CHR 0xA9],
      [CHR 0xE2, CHR 0x80, CHR 0xAF],
      [CHR 0xE2, CHR 0x81, CHR 0x9F],
      [CHR 0xE3, CHR 0x80, CHR 0x80] ]"

text \<open>Removing one of the given byte sequences from the front, when there is one.\<close>

definition strip_one :: "string list \<Rightarrow> string \<Rightarrow> string option" where
  "strip_one ws s =
     (case find (\<lambda>w. w \<noteq> [] \<and> take (length w) s = w) ws of
        None \<Rightarrow> None
      | Some w \<Rightarrow> Some (drop (length w) s))"

function trim_front :: "string list \<Rightarrow> string \<Rightarrow> string" where
  "trim_front ws s = (case strip_one ws s of None \<Rightarrow> s | Some r \<Rightarrow> trim_front ws r)"
  by pat_completeness auto
termination
proof (relation "measure (\<lambda>(ws, s). length s)")
  show "wf (measure (\<lambda>(ws, s). length s))" by simp
next
  fix ws :: "string list" and s r :: string
  assume "strip_one ws s = Some r"
  then obtain w where w: "find (\<lambda>w. w \<noteq> [] \<and> take (length w) s = w) ws = Some w"
    and r: "r = drop (length w) s"
    by (auto simp: strip_one_def split: option.splits)
  from w have "w \<noteq> []" and "take (length w) s = w"
    by (auto simp: find_Some_iff)
  then have "s \<noteq> []" and "0 < length w" by auto
  with r show "((ws, r), (ws, s)) \<in> measure (\<lambda>(ws, s). length s)" by simp
qed

declare trim_front.simps [simp del]

definition TrimLeft :: "string \<Rightarrow> string" where
  "TrimLeft s = trim_front white_space s"

definition TrimRight :: "string \<Rightarrow> string" where
  "TrimRight s = rev (trim_front (map rev white_space) (rev s))"

definition TrimSpace :: "string \<Rightarrow> string" where
  "TrimSpace s = TrimRight (TrimLeft s)"

text \<open>A run of the given byte sequences and nothing else.\<close>

inductive run :: "string list \<Rightarrow> string \<Rightarrow> bool" for ws :: "string list" where
  empty: "run ws []"
| rune: "w \<in> set ws \<Longrightarrow> run ws s \<Longrightarrow> run ws (w @ s)"

code_pred run .

text \<open>A run of white space: white-space runes and nothing else.\<close>

definition space_run :: "string \<Rightarrow> bool" where
  "space_run s = run white_space s"

text \<open>No sequence of the list is the beginning of another one.\<close>

definition prefix_free :: "string list \<Rightarrow> bool" where
  "prefix_free ws = list_all (\<lambda>w. list_all (\<lambda>w'. take (length w) w' = w \<longrightarrow> w = w') ws) ws"

definition leading_space :: "string \<Rightarrow> bool" where
  "leading_space s = (strip_one white_space s \<noteq> None)"

definition trailing_space :: "string \<Rightarrow> bool" where
  "trailing_space s = (strip_one (map rev white_space) (rev s) \<noteq> None)"

section \<open>The cache key\<close>

definition digit :: "nat \<Rightarrow> char" where
  "digit n = char_of (48 + n)"

function show_nat :: "nat \<Rightarrow> string" where
  "show_nat n = (if n < 10 then [digit n] else show_nat (n div 10) @ [digit (n mod 10)])"
  by pat_completeness auto
termination
  by (relation "measure id") auto

declare show_nat.simps [simp del]

definition show_int :: "int \<Rightarrow> string" where
  "show_int i = (if i < 0 then CHR ''-'' # show_nat (nat (- i)) else show_nat (nat i))"

definition show_bool :: "bool \<Rightarrow> string" where
  "show_bool b = (if b then ''true'' else ''false'')"

text \<open>Reading a decimal numeral back, to show that printing loses nothing.\<close>

definition digit_value :: "char \<Rightarrow> nat" where
  "digit_value c = of_char c - 48"

definition read_nat :: "string \<Rightarrow> nat" where
  "read_nat s = foldl (\<lambda>a c. 10 * a + digit_value c) 0 s"

text \<open>
  Modelled from the spec: the KeyBuilder of section 4.2. \<open>GetEchoPageCacheKey\<close> is called
  by \<open>GetEchosByPage\<close> and defined in a file that is missing. The specification asks for
  the field values concatenated with a delimiter, the search term verbatim: here the page
  and the page size in decimal, the search term and the visibility flag, with a colon
  between them.
\<close>

definition GetEchoPageCacheKey :: "go_int \<Rightarrow> go_int \<Rightarrow> string \<Rightarrow> bool \<Rightarrow> string" where
  "GetEchoPageCacheKey page pageSize search showPrivate =
     show_int (sint page) @ '':'' @ show_int (sint pageSize) @ '':'' @ search @ '':''
       @ show_bool showPrivate"

section \<open>The repository\<close>

text \<open>
  The state the repository functions work on: the fields \<open>db\<close> and \<open>cache\<close> of
  \<^verbatim>\<open>EchoRepository\<close>, and the package-level variable \<open>echoKeyList\<close>, the list of the cache
  keys handed to the cache since the last purge.
\<close>

record state =
  db :: database
  cache :: "(string, PageQueryResult) CacheStore"
  echoKeyList :: "string list"

text \<open>
  Modelled from the spec: \<^verbatim>\<open>PurgeAll\<close> of section 4.3. \<open>ClearEchoPageCache\<close> is called by
  the write operations and defined in a file that is missing: every tracked key is
  deleted from the store, then the tracked keys are cleared.
\<close>

definition ClearEchoPageCache :: "state \<Rightarrow> state" where
  "ClearEchoPageCache s =
     s\<lparr>cache := fold (\<lambda>k c. Delete c k) (echoKeyList s) (cache s), echoKeyList := []\<rparr>"

text \<open>
  \<open>CreateEcho\<close>: the content is trimmed, the echo is inserted, and only when the insert
  went through the page cache is purged. The result is the error, if any.
\<close>

definition CreateEcho :: "state \<Rightarrow> Echo \<Rightarrow> error option \<times> state" where
  "CreateEcho s echo =
     (let echo1 = echo\<lparr>Content := TrimSpace (Content echo)\<rparr>;
          (err, d1) = Create (db s) echo1 in
      case err of
        Some e \<Rightarrow> (Some e, s\<lparr>db := d1\<rparr>)
      | None \<Rightarrow> (None, ClearEchoPageCache (s\<lparr>db := d1\<rparr>)))"

text \<open>
  \<open>GetEchosByPage\<close>: a cache hit returns the cached items and total. On a miss the offset
  is computed, the store is queried, the key is appended to \<open>echoKeyList\<close> and the result
  is put into the cache at cost 1; what \<open>Set\<close> returns is ignored. There is no error
  result.
\<close>

definition GetEchosByPage :: "state \<Rightarrow> go_int \<Rightarrow> go_int \<Rightarrow> string \<Rightarrow> bool
    \<Rightarrow> (Echo list \<times> int) \<times> state" where
  "GetEchosByPage s page pageSize search showPrivate =
     (let cacheKey = GetEchoPageCacheKey page pageSize search showPrivate;
          (r, c1) = Get (cache s) cacheKey in
      case r of
        Inr cachedResult \<Rightarrow> ((Items cachedResult, Total cachedResult), s\<lparr>cache := c1\<rparr>)
      | Inl err \<Rightarrow>
          let offset = (page - 1) * pageSize;
              ((rows, total), d1) = Count_Find (db s) search showPrivate pageSize offset;
              keys = echoKeyList s @ [cacheKey];
              c2 = snd (Set c1 cacheKey \<lparr>Items = rows, Total = total\<rparr> 1)
          in ((rows, total), \<lparr>db = d1, cache = c2, echoKeyList = keys\<rparr>))"

text \<open>
  \<open>GetEchosById\<close>: the result is the pointer to the echo (\<open>None\<close> for \<^verbatim>\<open>nil\<close>) and the error.
\<close>

definition GetEchosById :: "state \<Rightarrow> nat \<Rightarrow> (Echo option \<times> error option) \<times> state" where
  "GetEchosById s i =
     (let (result, d1) = First (db s) i in
      case result of
        Inl e \<Rightarrow>
          if e = ErrRecordNotFound then ((None, None), s\<lparr>db := d1\<rparr>)
          else ((None, Some e), s\<lparr>db := d1\<rparr>)
      | Inr echo \<Rightarrow> ((Some echo, None), s\<lparr>db := d1\<rparr>))"

text \<open>
  \<open>DeleteEchoById\<close>: the images are deleted first and the outcome of that statement is
  not looked at; then the echo is deleted. An error, or no row affected, returns before
  the purge.
\<close>

definition DeleteEchoById :: "state \<Rightarrow> nat \<Rightarrow> error option \<times> state" where
  "DeleteEchoById s i =
     (let d1 = snd (Delete_images (db s) i);
          (result, d2) = Delete_echo d1 i in
      case result of
        Inl e \<Rightarrow> (Some e, s\<lparr>db := d2\<rparr>)
      | Inr rowsAffected \<Rightarrow>
          if rowsAffected = 0 then (Some ErrRecordNotFound, s\<lparr>db := d2\<rparr>)
          else (None, ClearEchoPageCache (s\<lparr>db := d2\<rparr>)))"

text \<open>
  \<open>UpdateEcho\<close>: the purge comes first. Then a transaction deletes the old images, updates
  the columns and inserts the new images, with a rollback at the first error; the result
  is the error of the commit. The deferred \<^verbatim>\<open>recover\<close> acts on a panic only, and nothing
  here panics.
\<close>

definition UpdateEcho :: "state \<Rightarrow> Echo \<Rightarrow> error option \<times> state" where
  "UpdateEcho s echo =
     (let s1 = ClearEchoPageCache s;
          d0 = db s1;
          (e0, tx0) = Begin d0 in
      case e0 of
        Some e \<Rightarrow> (Some e, s1\<lparr>db := tx0\<rparr>)
      | None \<Rightarrow>
          let (e1, tx1) = Delete_images tx0 (ID echo) in
          case e1 of
            Some e \<Rightarrow> (Some e, s1\<lparr>db := Rollback d0 tx1\<rparr>)
          | None \<Rightarrow>
              let (e2, tx2) = Updates_echo tx1 echo in
              case e2 of
                Some e \<Rightarrow> (Some e, s1\<lparr>db := Rollback d0 tx2\<rparr>)
              | None \<Rightarrow>
                  let (e3, tx3) =
                        (if 0 < length (Images echo)
                         then Create_images tx2 (map (\<lambda>img. img\<lparr>MessageID := ID echo\<rparr>) (Images echo))
                         else (None, tx2)) in
                  case e3 of
                    Some e \<Rightarrow> (Some e, s1\<lparr>db := Rollback d0 tx3\<rparr>)
                  | None \<Rightarrow>
                      let (e4, d4) = Commit d0 tx3 in (e4, s1\<lparr>db := d4\<rparr>))"

text \<open>
  \<open>LikeEcho\<close>: the existence check, then the increment, then the purge; each error returns
  at once.
\<close>

definition LikeEcho :: "state \<Rightarrow> nat \<Rightarrow> error option \<times> state" where
  "LikeEcho s i =
     (let (result, d1) = Exists_echo (db s) i in
      case result of
        Inl e \<Rightarrow> (Some e, s\<lparr>db := d1\<rparr>)
      | Inr exists \<Rightarrow>
          if \<not> exists then (Some ECHO_NOT_FOUND, s\<lparr>db := d1\<rparr>)
          else
            let (err, d2) = Increment_fav_count d1 i in
            case err of
              Some e \<Rightarrow> (Some e, s\<lparr>db := d2\<rparr>)
            | None \<Rightarrow> (None, ClearEchoPageCache (s\<lparr>db := d2\<rparr>)))"

text \<open>
  A \<^verbatim>\<open>LIKE\<close> operator for the concrete runs: the pattern \<^verbatim>\<open>%x%\<close> matches the texts that
  contain \<open>x\<close>.
\<close>

definition contains :: "string \<Rightarrow> string \<Rightarrow> bool" where
  "contains p t = (\<exists>i \<in> set [0 ..< Suc (length t)]. take (length p - 2) (drop i t) = butlast (tl p))"

text \<open>A healthy store with the given rows, an empty cache and no tracked key.\<close>

definition init :: "int \<Rightarrow> Echo list \<Rightarrow> state" where
  "init cap rows =
     \<lparr>db = \<lparr>tbl_echos = rows, tbl_images = [], faults = [], stmts = 0, like = contains, now = 100\<rparr>,
      cache = NewCache cap,
      echoKeyList = []\<rparr>"

text \<open>The next \<open>n\<close> statements sent to the store go through.\<close>

definition answers :: "nat \<Rightarrow> database \<Rightarrow> bool" where
  "answers n d = (\<forall>f \<in> set (take n (faults d)). f = None)"

text \<open>The outcome the schedule holds for the next statement.\<close>

definition next_fault :: "database \<Rightarrow> string option" where
  "next_fault d = (case faults d of [] \<Rightarrow> None | f # fs \<Rightarrow> f)"

text \<open>The write operations, as one type, for statements about all of them.\<close>

datatype mutation = MCreate Echo | MDelete nat | MUpdate Echo | MLike nat

fun mutate :: "state \<Rightarrow> mutation \<Rightarrow> error option \<times> state" where
  "mutate s (MCreate e) = CreateEcho s e"
| "mutate s (MDelete i) = DeleteEchoById s i"
| "mutate s (MUpdate e) = UpdateEcho s e"
| "mutate s (MLike i) = LikeEcho s i"

text \<open>Every key the cache holds is in the list of tracked keys.\<close>

definition tracked :: "state \<Rightarrow> bool" where
  "tracked s = (keys (cache s) \<subseteq> set (echoKeyList s))"

text \<open>Sample rows and a sample echo, for the concrete runs below.\<close>

definition greeting :: Echo where
  "greeting = \<lparr>ID = 0, Content = '' hello '', Private = False, Images = [], Extension = [],
                ExtensionType = [], FavCount = 0, CreatedAt = 0\<rparr>"

text \<open>The sample echo with other white space around its content.\<close>

definition padded :: Echo where
  "padded = greeting\<lparr>Content := [CHR 0xC2, CHR 0xA0] @ ''hello'' @ [CHR 0x09, CHR 0xE2, CHR 0x80, CHR 0x83]\<rparr>"

definition rows2 :: "Echo list" where
  "rows2 = [\<lparr>ID = 1, Content = ''first'', Private = False, Images = [], Extension = [],
              ExtensionType = [], FavCount = 0, CreatedAt = 10\<rparr>,
            \<lparr>ID = 2, Content = ''secret'', Private = True, Images = [], Extension = [],
              ExtensionType = [], FavCount = 3, CreatedAt = 20\<rparr>]"


text \<open>The same state with a store whose next statement fails.\<close>

definition unplugged :: "state \<Rightarrow> state" where
  "unplugged s = s\<lparr>db := (db s)\<lparr>faults := [Some ''database is locked'']\<rparr>\<rparr>"

text \<open>A cache of capacity one after reads of two different pages.\<close>

definition thrice :: state where
  "thrice = snd (GetEchosByPage (snd (GetEchosByPage (init 1 rows2) 1 10 [] False)) 2 10 [] False)"

text \<open>A state with one cached page.\<close>

definition cached :: state where
  "cached = snd (GetEchosByPage (init 4 rows2) 1 10 [] False)"

section \<open>Properties of the cache store\<close>

lemma total_cost_Nil [simp]: "total_cost [] = 0"
  by (simp add: total_cost_def)

lemma total_cost_Cons [simp]: "total_cost (e # es) = cost e + total_cost es"
  by (simp add: total_cost_def)

lemma total_cost_append [simp]: "total_cost (xs @ ys) = total_cost xs + total_cost ys"
  by (simp add: total_cost_def)


lemma set_evict: "set (evict b es) \<subseteq> set es"
  by (induction es) auto

lemma capacity_Set [simp]: "capacity (snd (Set c k v n)) = capacity c"
  by (simp add: Set_def)



lemma capacity_set_all [simp]: "capacity (set_all c xs) = capacity c"
  by (induction c xs rule: set_all.induct) simp_all



lemma find_filter_other:
  "k' \<noteq> k \<Longrightarrow> find (\<lambda>e. key e = k') (filter (\<lambda>x. key x \<noteq> k) es) = find (\<lambda>e. key e = k') es"
  by (induction es) auto

lemma find_filter_same: "find (\<lambda>e. key e = k) (filter (\<lambda>x. key x \<noteq> k) es) = None"
  by (induction es) auto

lemma find_append:
  "find P (xs @ ys) = (case find P xs of None \<Rightarrow> find P ys | Some x \<Rightarrow> Some x)"
  by (induction xs) auto

lemma find_key: "find (\<lambda>e. key e = k) es = Some e \<Longrightarrow> key e = k"
  by (induction es) (auto split: if_splits)

lemma resident_lookup: "resident c k \<longleftrightarrow> lookup c k \<noteq> None"
  by (simp add: resident_def lookup_def)

lemma resident_keys: "resident c k \<longleftrightarrow> k \<in> keys c"
  by (auto simp: resident_def keys_def find_None_iff)

lemma fst_Get: "fst (Get c k) = (case lookup c k of None \<Rightarrow> Inl KeyNotFound | Some v \<Rightarrow> Inr v)"
  by (simp add: Get_def lookup_def split: option.splits)

lemma lookup_Get: "lookup (snd (Get c k)) k' = lookup c k'"
proof (cases "find (\<lambda>e. key e = k) (entries c)")
  case None
  then show ?thesis by (simp add: Get_def)
next
  case (Some e)
  then have ke: "key e = k" by (rule find_key)
  show ?thesis
  proof (cases "k' = k")
    case True
    with Some ke show ?thesis
      by (simp add: Get_def lookup_def find_append find_filter_same)
  next
    case False
    with Some ke show ?thesis
      by (simp add: Get_def lookup_def find_append find_filter_other split: option.splits)
  qed
qed

lemma keys_Get: "keys (snd (Get c k)) = keys c"
  using lookup_Get [of c k] by (auto simp: resident_keys [symmetric] resident_lookup)

lemma capacity_Get: "capacity (snd (Get c k)) = capacity c"
  by (simp add: Get_def split: option.splits)

lemma Get_miss_unchanged: "\<not> resident c k \<Longrightarrow> Get c k = (Inl KeyNotFound, c)"
  by (simp add: Get_def resident_def)

lemma lookup_Set_ok:
  "fst (Set c k v n) = None \<Longrightarrow> lookup (snd (Set c k v n)) k = Some v"
proof -
  assume "fst (Set c k v n) = None"
  then have ok: "\<not> n \<le> 0" "\<not> capacity c < n"
    by (auto simp: Set_def split: if_splits)
  have "find (\<lambda>e. key e = k) (evict (capacity c - n) (filter (\<lambda>x. key x \<noteq> k) (entries c))) = None"
    using set_evict [of "capacity c - n" "filter (\<lambda>x. key x \<noteq> k) (entries c)"]
    by (auto simp: find_None_iff)
  with ok show ?thesis
    by (simp add: Set_def lookup_def find_append)
qed

lemma Set_ok: "0 < n \<Longrightarrow> n \<le> capacity c \<Longrightarrow> fst (Set c k v n) = None"
  by (simp add: Set_def)

lemma Set_failed: "fst (Set c k v n) \<noteq> None \<Longrightarrow> snd (Set c k v n) = c"
  by (auto simp: Set_def split: if_splits)

lemma keys_Set: "keys (snd (Set c k v n)) \<subseteq> insert k (keys c)"
  using set_evict [of "capacity c - n" "filter (\<lambda>x. key x \<noteq> k) (entries c)"]
  by (auto simp: Set_def keys_def)

lemma keys_Delete: "keys (Delete c k) = keys c - {k}"
  by (auto simp: Delete_def keys_def)

lemma keys_purge: "keys (fold (\<lambda>k c. Delete c k) ks c) = keys c - set ks"
  by (induction ks arbitrary: c) (auto simp: keys_Delete)

lemma entries_keys_empty: "keys c = {} \<longleftrightarrow> entries c = []"
  by (simp add: keys_def)

section \<open>Properties of the durable store\<close>

lemma exec_tables [simp]:
  "tbl_echos (snd (exec d)) = tbl_echos d" "tbl_images (snd (exec d)) = tbl_images d"
  "like (snd (exec d)) = like d" "now (snd (exec d)) = now d"
  "stmts (snd (exec d)) = Suc (stmts d)"
  by (simp_all add: exec_def split: list.splits)

lemma exec_answers:
  "answers (Suc n) d \<Longrightarrow> fst (exec d) = None \<and> answers n (snd (exec d))"
  by (auto simp: answers_def exec_def split: list.splits)

lemma answers_Nil: "faults d = [] \<Longrightarrow> answers n d"
  by (simp add: answers_def)

lemma exec_healthy: "faults d = [] \<Longrightarrow> exec d = (None, d\<lparr>stmts := Suc (stmts d)\<rparr>)"
  by (simp add: exec_def)

lemma matching_exec [simp]: "matching (snd (exec d)) q b = matching d q b"
  by (simp add: matching_def)

lemma preload_exec [simp]: "preload (snd (exec d)) = preload d"
  by (rule ext) (simp add: preload_def)

lemma Count_Find_answers:
  assumes "answers 3 d"
  shows "fst (Count_Find d q b ps off)
           = (map (preload d) (Limit ps (Offset off (Order_created_at_desc (matching d q b)))),
              int (length (matching d q b)))"
proof -
  from assms have a3: "answers (Suc 2) d" by (simp add: numeral_3_eq_3 numeral_2_eq_2)
  obtain f1 d1 where e1: "exec d = (f1, d1)" by (cases "exec d")
  with exec_answers [OF a3] have f1: "f1 = None" and a2: "answers (Suc 1) d1"
    by (simp_all add: numeral_2_eq_2)
  obtain f2 d2 where e2: "exec d1 = (f2, d2)" by (cases "exec d1")
  with exec_answers [OF a2] have f2: "f2 = None" and a1: "answers (Suc 0) d2"
    by simp_all
  obtain f3 d3 where e3: "exec d2 = (f3, d3)" by (cases "exec d2")
  with exec_answers [OF a1] have f3: "f3 = None" by simp
  have p: "preload d3 = preload d"
    using e1 e2 e3 preload_exec [of d] preload_exec [of d1] preload_exec [of d2] by simp
  show ?thesis
    using e1 e2 e3 f1 f2 f3 p by (simp add: Count_Find_def Let_def)
qed

lemma Count_Find_stmts: "stmts d < stmts (snd (Count_Find d q b ps off))"
proof -
  have "\<And>d. stmts d < stmts (snd (exec d))" by simp
  have s: "\<And>d f d'. exec d = (f, d') \<Longrightarrow> stmts d' = Suc (stmts d)"
    by (metis exec_tables(5) snd_conv)
  show ?thesis
    by (auto simp: Count_Find_def Let_def dest!: s split: prod.splits option.splits)
qed

lemma Count_Find_tables [simp]:
  "tbl_echos (snd (Count_Find d q b ps off)) = tbl_echos d"
  "tbl_images (snd (Count_Find d q b ps off)) = tbl_images d"
  "like (snd (Count_Find d q b ps off)) = like d"
proof -
  have s: "\<And>d f d'. exec d = (f, d') \<Longrightarrow> tbl_echos d' = tbl_echos d \<and> tbl_images d' = tbl_images d \<and> like d' = like d"
    by (metis exec_tables(1,2,3) snd_conv)
  show "tbl_echos (snd (Count_Find d q b ps off)) = tbl_echos d"
    by (auto simp: Count_Find_def Let_def dest!: s split: prod.splits option.splits)
  show "tbl_images (snd (Count_Find d q b ps off)) = tbl_images d"
    by (auto simp: Count_Find_def Let_def dest!: s split: prod.splits option.splits)
  show "like (snd (Count_Find d q b ps off)) = like d"
    by (auto simp: Count_Find_def Let_def dest!: s split: prod.splits option.splits)
qed

lemma Count_Find_faults: "faults d = [] \<Longrightarrow> faults (snd (Count_Find d q b ps off)) = []"
  by (simp add: Count_Find_def Let_def exec_healthy)


text \<open>
  Beyond that bound the offset wraps around: page \<open>2 ^ 62 + 1\<close> with a page size of 4
  has the offset 0.
\<close>

lemma offset_wraps_around:
  "0 < sint (4611686018427387905 :: go_int) \<and> ((4611686018427387905 :: go_int) - 1) * 4 = 0"
  by simp

section \<open>Reads, writes and the tracked keys\<close>

lemma GetEchosByPage_hit:
  assumes "lookup (cache s) (GetEchoPageCacheKey p ps q b) = Some v"
  shows "GetEchosByPage s p ps q b
           = ((Items v, Total v), s\<lparr>cache := snd (Get (cache s) (GetEchoPageCacheKey p ps q b))\<rparr>)"
proof -
  have "fst (Get (cache s) (GetEchoPageCacheKey p ps q b)) = Inr v"
    using assms by (simp add: fst_Get)
  then show ?thesis
    by (auto simp: GetEchosByPage_def Let_def split: prod.splits)
qed

lemma GetEchosByPage_miss:
  assumes "\<not> resident (cache s) (GetEchoPageCacheKey p ps q b)"
  shows "GetEchosByPage s p ps q b
           = (fst (Count_Find (db s) q b ps ((p - 1) * ps)),
              \<lparr>db = snd (Count_Find (db s) q b ps ((p - 1) * ps)),
               cache = snd (Set (cache s) (GetEchoPageCacheKey p ps q b)
                        \<lparr>Items = fst (fst (Count_Find (db s) q b ps ((p - 1) * ps))),
                         Total = snd (fst (Count_Find (db s) q b ps ((p - 1) * ps)))\<rparr> 1),
               echoKeyList = echoKeyList s @ [GetEchoPageCacheKey p ps q b]\<rparr>)"
  using Get_miss_unchanged [OF assms]
  by (simp add: GetEchosByPage_def Let_def split: prod.splits)

lemma tracked_GetEchosByPage:
  assumes "tracked s"
  shows "tracked (snd (GetEchosByPage s p ps q b))"
proof (cases "lookup (cache s) (GetEchoPageCacheKey p ps q b)")
  case None
  then have "\<not> resident (cache s) (GetEchoPageCacheKey p ps q b)"
    by (simp add: resident_lookup)
  from GetEchosByPage_miss [OF this] assms show ?thesis
    using keys_Set [of "cache s" "GetEchoPageCacheKey p ps q b"]
    by (fastforce simp: tracked_def)
next
  case (Some v)
  from GetEchosByPage_hit [OF this] assms show ?thesis
    by (simp add: tracked_def keys_Get)
qed

lemma ClearEchoPageCache_purged:
  "tracked s \<Longrightarrow> entries (cache (ClearEchoPageCache s)) = []"
  by (auto simp: ClearEchoPageCache_def tracked_def keys_purge entries_keys_empty [symmetric])

lemma ClearEchoPageCache_keys:
  "keys (cache (ClearEchoPageCache s)) = keys (cache s) - set (echoKeyList s)"
  by (simp add: ClearEchoPageCache_def keys_purge)

lemma ClearEchoPageCache_list [simp]: "echoKeyList (ClearEchoPageCache s) = []"
  by (simp add: ClearEchoPageCache_def)

lemma ClearEchoPageCache_db [simp]: "db (ClearEchoPageCache s) = db s"
  by (simp add: ClearEchoPageCache_def)

lemma ClearEchoPageCache_db_update:
  "ClearEchoPageCache (s\<lparr>db := d\<rparr>) = (ClearEchoPageCache s)\<lparr>db := d\<rparr>"
  by (simp add: ClearEchoPageCache_def)

lemma mutate_success:
  assumes "mutate s m = (None, s')"
  shows "\<exists>d. s' = (ClearEchoPageCache s)\<lparr>db := d\<rparr>"
proof (cases m)
  case (MCreate e)
  with assms show ?thesis
    by (auto simp: CreateEcho_def Let_def ClearEchoPageCache_db_update split: prod.splits option.splits)
next
  case (MDelete i)
  with assms show ?thesis
    by (auto simp: DeleteEchoById_def Let_def ClearEchoPageCache_db_update
        split: prod.splits sum.splits if_splits)
next
  case (MUpdate e)
  with assms show ?thesis
    by (auto simp: UpdateEcho_def Let_def split: prod.splits option.splits if_splits)
next
  case (MLike i)
  with assms show ?thesis
    by (auto simp: LikeEcho_def Let_def ClearEchoPageCache_db_update
        split: prod.splits sum.splits option.splits if_splits)
qed

lemma Create_ok:
  assumes "Create d e = (None, d')"
  shows "\<exists>row. tbl_echos d' = tbl_echos d @ [row] \<and> Content row = Content e
           \<and> Private row = Private e"
    and "faults d = [] \<Longrightarrow> faults d' = []"
    and "like d' = like d"
proof -
  obtain f d1 where e: "exec d = (f, d1)" by (cases "exec d")
  then have t: "tbl_echos d1 = tbl_echos d" "like d1 = like d"
    by (metis exec_tables(1) snd_conv, metis exec_tables(3) snd_conv)
  from assms e have f: "f = None"
    by (auto simp: Create_def Let_def split: option.splits)
  with assms e t show "\<exists>row. tbl_echos d' = tbl_echos d @ [row] \<and> Content row = Content e
           \<and> Private row = Private e"
    by (auto simp: Create_def Let_def split: if_splits)
  from assms e f t show "like d' = like d"
    by (auto simp: Create_def Let_def split: if_splits)
  assume "faults d = []"
  with e have "faults d1 = []" by (auto simp: exec_healthy)
  with assms e f show "faults d' = []"
    by (auto simp: Create_def Let_def split: if_splits)
qed

lemma CreateEcho_ok:
  assumes "CreateEcho s e = (None, s')"
  shows "Create (db s) (e\<lparr>Content := TrimSpace (Content e)\<rparr>) = (None, db s')"
  using assms
  by (auto simp: CreateEcho_def Let_def split: prod.splits option.splits)

text \<open>
  Claim C1. Take a state in which every cached key is tracked, as in every state the
  repository reaches from an empty cache. After \<open>GetEchosByPage\<close> for a descriptor and
  then a write operation (\<open>CreateEcho\<close>, \<open>DeleteEchoById\<close>, \<open>UpdateEcho\<close> or \<open>LikeEcho\<close>)
  that returns no error, every tracked key is purged: none is resident, the cache is
  empty and the list of tracked keys is empty. The next \<open>GetEchosByPage\<close> for the
  descriptor therefore returns what the store answers after the write, not the cached
  value; after a successful create of a visible echo on a healthy store, with no search
  term and a first read that missed the cache, the total is one more than before.
\<close>

theorem purge_after_mutation:
  assumes "tracked s"
    and "GetEchosByPage s p ps q b = (r1, s1)"
    and "mutate s1 m = (None, s2)"
  shows "(\<forall>k \<in> set (echoKeyList s1). \<not> resident (cache s2) k)
       \<and> entries (cache s2) = [] \<and> echoKeyList s2 = []
       \<and> fst (GetEchosByPage s2 p ps q b) = fst (Count_Find (db s2) q b ps ((p - 1) * ps))
       \<and> (\<forall>e. m = MCreate e \<and> \<not> resident (cache s) (GetEchoPageCacheKey p ps q b)
              \<and> faults (db s) = [] \<and> q = [] \<and> (b \<or> \<not> Private e)
            \<longrightarrow> snd (fst (GetEchosByPage s2 p ps q b)) = snd r1 + 1)"
proof -
  let ?k = "GetEchoPageCacheKey p ps q b"
  have t1: "tracked s1"
    using tracked_GetEchosByPage [OF assms(1), of p ps q b] assms(2) by simp
  from mutate_success [OF assms(3)] obtain d where s2: "s2 = (ClearEchoPageCache s1)\<lparr>db := d\<rparr>"
    by blast
  have e: "entries (cache s2) = []"
    using ClearEchoPageCache_purged [OF t1] s2 by simp
  then have nores: "\<And>k. \<not> resident (cache s2) k"
    by (simp add: resident_def)
  have fresh: "fst (GetEchosByPage s2 p ps q b) = fst (Count_Find (db s2) q b ps ((p - 1) * ps))"
    using GetEchosByPage_miss [OF nores] by simp
  have plus: "snd (fst (GetEchosByPage s2 p ps q b)) = snd r1 + 1"
    if m: "m = MCreate e" and miss: "\<not> resident (cache s) ?k"
      and h: "faults (db s) = []" and q: "q = []" and vis: "b \<or> \<not> Private e" for e
  proof -
    from GetEchosByPage_miss [OF miss] assms(2)
    have r1: "r1 = fst (Count_Find (db s) q b ps ((p - 1) * ps))"
      and d1: "db s1 = snd (Count_Find (db s) q b ps ((p - 1) * ps))"
      by auto
    have tot1: "snd r1 = int (length (matching (db s) q b))"
      using r1 Count_Find_answers [OF answers_Nil [OF h]] by simp
    have h1: "faults (db s1) = []" and tb1: "tbl_echos (db s1) = tbl_echos (db s)"
      using d1 h by (simp_all add: Count_Find_faults)
    from assms(3) m have "CreateEcho s1 e = (None, s2)" by simp
    from Create_ok [OF CreateEcho_ok [OF this]]
    obtain row where row: "tbl_echos (db s2) = tbl_echos (db s1) @ [row]"
      "Private row = Private e" and h2: "faults (db s2) = []"
      using h1 by auto
    have "matching (db s2) q b = matching (db s) q b @ [row]"
      using row tb1 q vis by (simp add: matching_def)
    then have "snd (fst (Count_Find (db s2) q b ps ((p - 1) * ps)))
                 = int (length (matching (db s) q b)) + 1"
      using Count_Find_answers [OF answers_Nil [OF h2]] by simp
    with fresh tot1 show ?thesis by simp
  qed
  show ?thesis
  proof (intro conjI allI impI ballI)
    show "entries (cache s2) = []" by (rule e)
    show "echoKeyList s2 = []" using s2 by simp
    show "fst (GetEchosByPage s2 p ps q b) = fst (Count_Find (db s2) q b ps ((p - 1) * ps))"
      by (rule fresh)
  next
    fix k show "\<not> resident (cache s2) k" by (rule nores)
  next
    fix e
    assume "m = MCreate e \<and> \<not> resident (cache s) ?k
              \<and> faults (db s) = [] \<and> q = [] \<and> (b \<or> \<not> Private e)"
    then show "snd (fst (GetEchosByPage s2 p ps q b)) = snd r1 + 1"
      using plus by blast
  qed
qed

theorem purge_after_mutation_witness:
  "tracked (init 4 rows2)
   \<and> fst (GetEchosByPage (init 4 rows2) 1 10 [] False) = ([hd rows2], 1)
   \<and> fst (mutate (snd (GetEchosByPage (init 4 rows2) 1 10 [] False)) (MCreate greeting)) = None
   \<and> entries (cache (snd (mutate (snd (GetEchosByPage (init 4 rows2) 1 10 [] False))
         (MCreate greeting)))) = []
   \<and> snd (fst (GetEchosByPage
         (snd (mutate (snd (GetEchosByPage (init 4 rows2) 1 10 [] False)) (MCreate greeting)))
         1 10 [] False)) = 2"
proof -
  let ?s = "init 4 rows2"
  let ?g = "GetEchosByPage ?s 1 10 [] False"
  let ?m = "mutate (snd ?g) (MCreate greeting)"
  have h1: "tracked ?s"
    by (simp add: tracked_def init_def NewCache_def keys_def)
  have h2: "?g = (fst ?g, snd ?g)" by simp
  have ok: "fst ?m = None" by code_simp
  then have h3: "?m = (None, snd ?m)" by (simp add: prod_eq_iff)
  have r1: "fst ?g = ([hd rows2], 1)" by code_simp
  have miss: "\<not> resident (cache ?s) (GetEchoPageCacheKey 1 10 [] False)"
    by (simp add: resident_def init_def NewCache_def)
  have healthy: "faults (db ?s) = []" by (simp add: init_def)
  have vis: "\<not> Private greeting" by (simp add: greeting_def)
  note c1 = purge_after_mutation [OF h1 h2 h3]
  from c1 have e: "entries (cache (snd ?m)) = []" by blast
  from c1 have "MCreate greeting = MCreate greeting
       \<and> \<not> resident (cache ?s) (GetEchoPageCacheKey 1 10 [] False)
       \<and> faults (db ?s) = [] \<and> ([]::string) = [] \<and> (False \<or> \<not> Private greeting)
     \<longrightarrow> snd (fst (GetEchosByPage (snd ?m) 1 10 [] False)) = snd (fst ?g) + 1"
    by blast
  with miss healthy vis have "snd (fst (GetEchosByPage (snd ?m) 1 10 [] False)) = snd (fst ?g) + 1"
    by blast
  also have "\<dots> = 2" by (simp add: r1)
  finally have t: "snd (fst (GetEchosByPage (snd ?m) 1 10 [] False)) = 2" .
  from h1 r1 ok e t show ?thesis by blast
qed

text \<open>
  Claim C5. When a call of \<open>GetEchosByPage\<close> for a descriptor has left its page in the
  cache, a second identical call right after it (no write and no eviction in between)
  returns exactly the items and the total of the first and issues no statement to the
  store: the store, its statement counter included, and the tracked keys are as they
  were.
\<close>

theorem cache_hit_equivalence:
  assumes "GetEchosByPage s p ps q b = (r1, s1)"
    and "resident (cache s1) (GetEchoPageCacheKey p ps q b)"
  shows "fst (GetEchosByPage s1 p ps q b) = r1
       \<and> db (snd (GetEchosByPage s1 p ps q b)) = db s1
       \<and> echoKeyList (snd (GetEchosByPage s1 p ps q b)) = echoKeyList s1"
proof -
  let ?k = "GetEchoPageCacheKey p ps q b"
  from assms(2) obtain v where v: "lookup (cache s1) ?k = Some v"
    by (auto simp: resident_lookup)
  have "r1 = (Items v, Total v)"
  proof (cases "lookup (cache s) ?k")
    case None
    then have miss: "\<not> resident (cache s) ?k" by (simp add: resident_lookup)
    let ?r = "fst (Count_Find (db s) q b ps ((p - 1) * ps))"
    let ?v = "\<lparr>Items = fst ?r, Total = snd ?r\<rparr>"
    from GetEchosByPage_miss [OF miss] assms(1)
    have r1: "r1 = ?r" and c1: "cache s1 = snd (Set (cache s) ?k ?v 1)"
      by auto
    have "fst (Set (cache s) ?k ?v 1) = None"
    proof (rule ccontr)
      assume "fst (Set (cache s) ?k ?v 1) \<noteq> None"
      then have "cache s1 = cache s" using c1 by (simp add: Set_failed)
      with miss assms(2) show False by simp
    qed
    then have "lookup (cache s1) ?k = Some ?v"
      using c1 by (simp add: lookup_Set_ok)
    with v r1 show ?thesis by auto
  next
    case (Some u)
    from GetEchosByPage_hit [OF this] assms(1)
    have r1: "r1 = (Items u, Total u)" and "cache s1 = snd (Get (cache s) ?k)"
      by auto
    then have "lookup (cache s1) ?k = Some u"
      using Some by (simp add: lookup_Get)
    with v r1 show ?thesis by simp
  qed
  with GetEchosByPage_hit [OF v] show ?thesis by simp
qed

theorem cache_hit_equivalence_witness:
  "resident (cache (snd (GetEchosByPage (init 4 rows2) 1 10 [] True)))
     (GetEchoPageCacheKey 1 10 [] True)
   \<and> fst (GetEchosByPage (init 4 rows2) 1 10 [] True) = (rev rows2, 2)
   \<and> fst (GetEchosByPage (snd (GetEchosByPage (init 4 rows2) 1 10 [] True)) 1 10 [] True)
       = (rev rows2, 2)
   \<and> stmts (db (snd (GetEchosByPage (init 4 rows2) 1 10 [] True))) = 3
   \<and> stmts (db (snd (GetEchosByPage (snd (GetEchosByPage (init 4 rows2) 1 10 [] True))
        1 10 [] True))) = 3"
proof -
  let ?g = "GetEchosByPage (init 4 rows2) 1 10 [] True"
  have h1: "?g = (fst ?g, snd ?g)" by simp
  have h2: "resident (cache (snd ?g)) (GetEchoPageCacheKey 1 10 [] True)" by code_simp
  have r: "fst ?g = (rev rows2, 2)" by code_simp
  have n: "stmts (db (snd ?g)) = 3" by code_simp
  note c = cache_hit_equivalence [OF h1 h2]
  from c have a: "fst (GetEchosByPage (snd ?g) 1 10 [] True) = fst ?g" by blast
  from c have b: "db (snd (GetEchosByPage (snd ?g) 1 10 [] True)) = db (snd ?g)" by blast
  from a r have a': "fst (GetEchosByPage (snd ?g) 1 10 [] True) = (rev rows2, 2)" by simp
  from b n have b': "stmts (db (snd (GetEchosByPage (snd ?g) 1 10 [] True))) = 3" by simp
  from h2 r a' n b' show ?thesis by blast
qed

section \<open>The page window\<close>





lemma fst_exec: "fst (exec d) = next_fault d"
  by (simp add: exec_def next_fault_def split: list.splits)

text \<open>
  Claim C10. For every identifier with no stored echo, \<open>GetEchosById\<close> on a store that
  answers returns no echo and no error; every failure of the store other than
  record-not-found is returned as the error, with no echo.
\<close>

theorem GetEchosById_not_found:
  "(next_fault (db s) = None \<and> i \<notin> set (map ID (tbl_echos (db s)))
      \<longrightarrow> fst (GetEchosById s i) = (None, None))
   \<and> (\<forall>e. fst (First (db s) i) = Inl e \<and> e \<noteq> ErrRecordNotFound
      \<longrightarrow> fst (GetEchosById s i) = (None, Some e))
   \<and> (\<forall>m. next_fault (db s) = Some m
      \<longrightarrow> fst (GetEchosById s i) = (None, Some (StoreError m)))"
proof (intro conjI allI impI)
  assume a: "next_fault (db s) = None \<and> i \<notin> set (map ID (tbl_echos (db s)))"
  obtain f d1 where e: "exec (db s) = (f, d1)" by (cases "exec (db s)")
  with a fst_exec [of "db s"] have f: "f = None" by simp
  from e have t: "tbl_echos d1 = tbl_echos (db s)"
    by (metis exec_tables(1) snd_conv)
  from a t have "find (\<lambda>e. ID e = i) (tbl_echos d1) = None"
    by (auto simp: find_None_iff)
  with e f show "fst (GetEchosById s i) = (None, None)"
    by (simp add: GetEchosById_def First_def Let_def)
next
  fix e
  assume "fst (First (db s) i) = Inl e \<and> e \<noteq> ErrRecordNotFound"
  then show "fst (GetEchosById s i) = (None, Some e)"
    by (auto simp: GetEchosById_def Let_def split: prod.splits)
next
  fix m
  assume a: "next_fault (db s) = Some m"
  obtain f d1 where e: "exec (db s) = (f, d1)" by (cases "exec (db s)")
  with a fst_exec [of "db s"] have f: "f = Some m" by simp
  with e show "fst (GetEchosById s i) = (None, Some (StoreError m))"
    by (simp add: GetEchosById_def First_def Let_def)
qed

theorem GetEchosById_not_found_witness:
  "next_fault (db (init 4 rows2)) = None \<and> 7 \<notin> set (map ID (tbl_echos (db (init 4 rows2))))
   \<and> fst (GetEchosById (init 4 rows2) 7) = (None, None)
   \<and> fst (First (db (unplugged (init 4 rows2))) 2) = Inl (StoreError ''database is locked'')
   \<and> next_fault (db (unplugged (init 4 rows2))) = Some ''database is locked''
   \<and> fst (GetEchosById (unplugged (init 4 rows2)) 2)
       = (None, Some (StoreError ''database is locked''))"
proof -
  have h1: "next_fault (db (init 4 rows2)) = None"
    by (simp add: next_fault_def init_def)
  have h2: "7 \<notin> set (map ID (tbl_echos (db (init 4 rows2))))"
    by (simp add: init_def rows2_def)
  have h3: "fst (First (db (unplugged (init 4 rows2))) 2) = Inl (StoreError ''database is locked'')"
    by code_simp
  have h4: "next_fault (db (unplugged (init 4 rows2))) = Some ''database is locked''"
    by (simp add: next_fault_def unplugged_def)
  from GetEchosById_not_found [of "init 4 rows2" 7] h1 h2
  have a: "fst (GetEchosById (init 4 rows2) 7) = (None, None)" by blast
  from GetEchosById_not_found [of "unplugged (init 4 rows2)" 2] h4
  have b: "fst (GetEchosById (unplugged (init 4 rows2)) 2)
       = (None, Some (StoreError ''database is locked''))" by blast
  have "StoreError ''database is locked'' \<noteq> ErrRecordNotFound" by simp
  with GetEchosById_not_found [of "unplugged (init 4 rows2)" 2] h3
  have c: "fst (GetEchosById (unplugged (init 4 rows2)) 2)
       = (None, Some (StoreError ''database is locked''))" by blast
  from h1 h2 h3 h4 a b c show ?thesis by blast
qed

section \<open>The descriptor is not validated\<close>

text \<open>
  Against claim C8 as stated: a read of page 0 is not rejected. It returns the first
  page, has sent three statements to the store, and has put an entry into the cache and
  a key into the list of tracked keys.
\<close>

theorem no_descriptor_validation_counterexample:
  "sint (0 :: go_int) \<le> 0
   \<and> fst (GetEchosByPage (init 4 rows2) 0 10 [] False) = ([hd rows2], 1)
   \<and> stmts (db (init 4 rows2)) = 0
   \<and> stmts (db (snd (GetEchosByPage (init 4 rows2) 0 10 [] False))) = 3
   \<and> entries (cache (init 4 rows2)) = []
   \<and> map key (entries (cache (snd (GetEchosByPage (init 4 rows2) 0 10 [] False))))
       = [''0:10::false'']
   \<and> echoKeyList (snd (GetEchosByPage (init 4 rows2) 0 10 [] False)) = [''0:10::false'']"
  by code_simp

text \<open>
  Claim C8, amended. \<open>GetEchosByPage\<close> does not validate its descriptor and has no error
  result: also with a page or a page size of zero or less, a call that misses the cache
  returns what the store answers for that limit and offset, sends at least one statement
  to the store, appends the cache key to the tracked keys and, when the cache has room
  for an entry of cost 1, caches the result.
\<close>

theorem no_descriptor_validation:
  assumes "sint p \<le> 0 \<or> sint ps \<le> 0"
    and "\<not> resident (cache s) (GetEchoPageCacheKey p ps q b)"
  shows "fst (GetEchosByPage s p ps q b) = fst (Count_Find (db s) q b ps ((p - 1) * ps))
       \<and> stmts (db s) < stmts (db (snd (GetEchosByPage s p ps q b)))
       \<and> echoKeyList (snd (GetEchosByPage s p ps q b))
           = echoKeyList s @ [GetEchoPageCacheKey p ps q b]
       \<and> (1 \<le> capacity (cache s) \<longrightarrow>
            lookup (cache (snd (GetEchosByPage s p ps q b))) (GetEchoPageCacheKey p ps q b)
              = Some \<lparr>Items = fst (fst (GetEchosByPage s p ps q b)),
                      Total = snd (fst (GetEchosByPage s p ps q b))\<rparr>)"
  using GetEchosByPage_miss [OF assms(2)] Count_Find_stmts [of "db s" q b ps "(p - 1) * ps"]
  by (simp add: lookup_Set_ok Set_ok)

theorem no_descriptor_validation_witness:
  "(sint (-3 :: go_int) \<le> 0 \<or> sint (0 :: go_int) \<le> 0)
   \<and> \<not> resident (cache (init 4 rows2)) (GetEchoPageCacheKey (-3) 0 [] True)
   \<and> stmts (db (init 4 rows2)) < stmts (db (snd (GetEchosByPage (init 4 rows2) (-3) 0 [] True)))
   \<and> echoKeyList (snd (GetEchosByPage (init 4 rows2) (-3) 0 [] True)) = [''-3:0::true'']
   \<and> 1 \<le> capacity (cache (init 4 rows2))
   \<and> lookup (cache (snd (GetEchosByPage (init 4 rows2) (-3) 0 [] True)))
         (GetEchoPageCacheKey (-3) 0 [] True)
       = Some \<lparr>Items = fst (fst (GetEchosByPage (init 4 rows2) (-3) 0 [] True)),
                Total = snd (fst (GetEchosByPage (init 4 rows2) (-3) 0 [] True))\<rparr>"
proof -
  have h1: "sint (-3 :: go_int) \<le> 0 \<or> sint (0 :: go_int) \<le> 0" by simp
  have h2: "\<not> resident (cache (init 4 rows2)) (GetEchoPageCacheKey (-3) 0 [] True)"
    by (simp add: resident_def init_def NewCache_def)
  have k: "GetEchoPageCacheKey (-3) 0 [] True = ''-3:0::true''" by code_simp
  have l: "echoKeyList (init 4 rows2) = []" by (simp add: init_def)
  note c = no_descriptor_validation [OF h1 h2]
  from c have a: "stmts (db (init 4 rows2)) < stmts (db (snd (GetEchosByPage (init 4 rows2) (-3) 0 [] True)))"
    by blast
  from c k l have b: "echoKeyList (snd (GetEchosByPage (init 4 rows2) (-3) 0 [] True)) = [''-3:0::true'']"
    by simp
  have h3: "1 \<le> capacity (cache (init 4 rows2))" by (simp add: init_def NewCache_def)
  with c have d: "lookup (cache (snd (GetEchosByPage (init 4 rows2) (-3) 0 [] True)))
         (GetEchoPageCacheKey (-3) 0 [] True)
       = Some \<lparr>Items = fst (fst (GetEchosByPage (init 4 rows2) (-3) 0 [] True)),
                Total = snd (fst (GetEchosByPage (init 4 rows2) (-3) 0 [] True))\<rparr>"
    by blast
  from h1 h2 a b h3 d show ?thesis by blast
qed

section \<open>The tracked keys are a list\<close>

text \<open>
  Against claim C2 as stated: with a cache of capacity 1, reading page 1, page 2 and
  page 1 again tracks the key of page 1 twice, so the tracked keys are not free of
  duplicates.
\<close>

theorem tracked_keys_duplicate_counterexample:
  "echoKeyList (snd (GetEchosByPage (snd (GetEchosByPage (snd (GetEchosByPage (init 1 rows2)
       1 10 [] False)) 2 10 [] False)) 1 10 [] False))
     = [''1:10::false'', ''2:10::false'', ''1:10::false'']
   \<and> \<not> distinct (echoKeyList (snd (GetEchosByPage (snd (GetEchosByPage (snd (GetEchosByPage
       (init 1 rows2) 1 10 [] False)) 2 10 [] False)) 1 10 [] False)))"
  by code_simp

text \<open>
  Claim C2, amended. The tracked keys are the list \<open>echoKeyList\<close>. Every read that misses
  the cache appends its key, with no check for a key that is in the list already: then
  the members stay the same, the list is one longer and holds the key twice. A read that
  hits the cache leaves the list unchanged, and a purge empties it.
\<close>

theorem tracked_keys_appended:
  "(\<not> resident (cache s) (GetEchoPageCacheKey p ps q b) \<longrightarrow>
      echoKeyList (snd (GetEchosByPage s p ps q b))
        = echoKeyList s @ [GetEchoPageCacheKey p ps q b])
   \<and> (\<not> resident (cache s) (GetEchoPageCacheKey p ps q b)
        \<and> GetEchoPageCacheKey p ps q b \<in> set (echoKeyList s) \<longrightarrow>
      set (echoKeyList (snd (GetEchosByPage s p ps q b))) = set (echoKeyList s)
      \<and> length (echoKeyList (snd (GetEchosByPage s p ps q b))) = Suc (length (echoKeyList s))
      \<and> \<not> distinct (echoKeyList (snd (GetEchosByPage s p ps q b))))
   \<and> (resident (cache s) (GetEchoPageCacheKey p ps q b) \<longrightarrow>
      echoKeyList (snd (GetEchosByPage s p ps q b)) = echoKeyList s)
   \<and> echoKeyList (ClearEchoPageCache s) = []"
proof -
  let ?k = "GetEchoPageCacheKey p ps q b"
  let ?l = "echoKeyList (snd (GetEchosByPage s p ps q b))"
  have miss: "?l = echoKeyList s @ [?k]" if "\<not> resident (cache s) ?k"
    using GetEchosByPage_miss [OF that] by simp
  have dup: "set ?l = set (echoKeyList s) \<and> length ?l = Suc (length (echoKeyList s))
      \<and> \<not> distinct ?l" if "\<not> resident (cache s) ?k \<and> ?k \<in> set (echoKeyList s)"
    using that miss by auto
  have hit: "?l = echoKeyList s" if "resident (cache s) ?k"
  proof -
    from that obtain v where "lookup (cache s) ?k = Some v"
      by (auto simp: resident_lookup)
    from GetEchosByPage_hit [OF this] show ?thesis by simp
  qed
  have purge: "echoKeyList (ClearEchoPageCache s) = []" by simp
  from miss dup hit purge show ?thesis by blast
qed

theorem tracked_keys_appended_witness:
  "\<not> resident (cache thrice) (GetEchoPageCacheKey 1 10 [] False)
   \<and> GetEchoPageCacheKey 1 10 [] False \<in> set (echoKeyList thrice)
   \<and> resident (cache thrice) (GetEchoPageCacheKey 2 10 [] False)
   \<and> echoKeyList thrice = [''1:10::false'', ''2:10::false'']
   \<and> echoKeyList (snd (GetEchosByPage thrice 1 10 [] False))
       = [''1:10::false'', ''2:10::false'', ''1:10::false'']
   \<and> echoKeyList (snd (GetEchosByPage thrice 2 10 [] False)) = [''1:10::false'', ''2:10::false'']"
proof -
  have h1: "\<not> resident (cache thrice) (GetEchoPageCacheKey 1 10 [] False)" by code_simp
  have h2: "GetEchoPageCacheKey 1 10 [] False \<in> set (echoKeyList thrice)" by code_simp
  have h3: "resident (cache thrice) (GetEchoPageCacheKey 2 10 [] False)" by code_simp
  have l: "echoKeyList thrice = [''1:10::false'', ''2:10::false'']" by code_simp
  have k: "GetEchoPageCacheKey 1 10 [] False = ''1:10::false''" by code_simp
  from tracked_keys_appended [of thrice 1 10 "[]" False] h1
  have "echoKeyList (snd (GetEchosByPage thrice 1 10 [] False))
        = echoKeyList thrice @ [GetEchoPageCacheKey 1 10 [] False]" by blast
  with l k have a: "echoKeyList (snd (GetEchosByPage thrice 1 10 [] False))
       = [''1:10::false'', ''2:10::false'', ''1:10::false'']" by simp
  from tracked_keys_appended [of thrice 2 10 "[]" False] h3
  have "echoKeyList (snd (GetEchosByPage thrice 2 10 [] False)) = echoKeyList thrice" by blast
  with l have b: "echoKeyList (snd (GetEchosByPage thrice 2 10 [] False)) = [''1:10::false'', ''2:10::false'']"
    by simp
  from h1 h2 h3 l a b show ?thesis by blast
qed

section \<open>The order of purge and write\<close>

text \<open>
  Claim C3 at a failing input. A page is cached and the store's next statement fails.
  \<open>UpdateEcho\<close> returns the store's error, the table is unchanged, and the cache has been
  purged all the same, because the purge is the first thing it does. \<open>CreateEcho\<close> in
  the same state returns the error and leaves the cache alone.
\<close>

theorem UpdateEcho_purges_before_failed_update:
  "map key (entries (cache (unplugged cached))) = [''1:10::false'']
   \<and> fst (UpdateEcho (unplugged cached) (greeting\<lparr>ID := 1\<rparr>))
       = Some (StoreError ''database is locked'')
   \<and> tbl_echos (db (snd (UpdateEcho (unplugged cached) (greeting\<lparr>ID := 1\<rparr>)))) = rows2
   \<and> entries (cache (snd (UpdateEcho (unplugged cached) (greeting\<lparr>ID := 1\<rparr>)))) = []
   \<and> fst (CreateEcho (unplugged cached) greeting) = Some (StoreError ''database is locked'')
   \<and> map key (entries (cache (snd (CreateEcho (unplugged cached) greeting))))
       = [''1:10::false'']"
  by code_simp

text \<open>
  The other three write operations keep the cache when they fail; \<open>UpdateEcho\<close> purges
  whatever happens.
\<close>

lemma failed_write_keeps_cache:
  assumes "mutate s m = (Some e, s')" and "\<forall>u. m \<noteq> MUpdate u"
  shows "cache s' = cache s \<and> echoKeyList s' = echoKeyList s"
proof (cases m)
  case (MCreate e)
  with assms show ?thesis
    by (auto simp: CreateEcho_def Let_def split: prod.splits option.splits)
next
  case (MDelete i)
  with assms show ?thesis
    by (auto simp: DeleteEchoById_def Let_def split: prod.splits sum.splits if_splits)
next
  case (MUpdate u)
  with assms show ?thesis by simp
next
  case (MLike i)
  with assms show ?thesis
    by (auto simp: LikeEcho_def Let_def split: prod.splits sum.splits option.splits if_splits)
qed

lemma UpdateEcho_always_purges:
  "tracked s \<Longrightarrow> entries (cache (snd (UpdateEcho s u))) = []"
  using ClearEchoPageCache_purged [of s]
  by (auto simp: UpdateEcho_def Let_def split: prod.splits option.splits if_splits)

text \<open>
  Every state the repository reaches from an empty cache has all its cached keys
  tracked: the reads and the writes keep that property.
\<close>

lemma tracked_init: "tracked (init cap rows)"
  by (simp add: tracked_def init_def NewCache_def keys_def)

lemma tracked_mutate:
  assumes "tracked s"
  shows "tracked (snd (mutate s m))"
proof (cases "fst (mutate s m)")
  case None
  then have "mutate s m = (None, snd (mutate s m))" by (simp add: prod_eq_iff)
  from mutate_success [OF this] obtain d where "snd (mutate s m) = (ClearEchoPageCache s)\<lparr>db := d\<rparr>"
    by blast
  with ClearEchoPageCache_purged [OF assms] show ?thesis
    by (simp add: tracked_def keys_def)
next
  case (Some e)
  then have r: "mutate s m = (Some e, snd (mutate s m))" by (simp add: prod_eq_iff)
  show ?thesis
  proof (cases "\<exists>u. m = MUpdate u")
    case True
    then obtain u where "m = MUpdate u" by blast
    with UpdateEcho_always_purges [OF assms, of u] show ?thesis
      by (simp add: tracked_def keys_def)
  next
    case False
    then have "\<forall>u. m \<noteq> MUpdate u" by simp
    from failed_write_keeps_cache [OF r this] assms show ?thesis
      by (simp add: tracked_def)
  qed
qed

lemma tracked_GetEchosById: "tracked s \<Longrightarrow> tracked (snd (GetEchosById s i))"
  by (auto simp: GetEchosById_def Let_def tracked_def split: prod.splits sum.splits)

section \<open>The cache key is injective\<close>

lemma digit_value_digit: "n < 10 \<Longrightarrow> digit_value (digit n) = n"
  by (simp add: digit_value_def digit_def)

lemma read_nat_snoc: "read_nat (s @ [c]) = 10 * read_nat s + digit_value c"
  by (simp add: read_nat_def)

lemma read_show_nat: "read_nat (show_nat n) = n"
proof (induction n rule: show_nat.induct)
  case (1 n)
  show ?case
  proof (cases "n < 10")
    case True
    then show ?thesis
      by (subst show_nat.simps) (simp add: read_nat_def digit_value_digit)
  next
    case False
    with 1 have "read_nat (show_nat (n div 10)) = n div 10" by simp
    with False show ?thesis
      by (subst show_nat.simps) (simp add: read_nat_snoc digit_value_digit)
  qed
qed

lemma show_nat_inj: "show_nat m = show_nat n \<Longrightarrow> m = n"
  by (metis read_show_nat)

lemma digit_not_colon: "n < 10 \<Longrightarrow> digit n \<noteq> CHR '':'' \<and> digit n \<noteq> CHR ''-''"
proof -
  assume n: "n < 10"
  then have d: "of_char (digit n) = 48 + n" by (simp add: digit_def)
  have "of_char (digit n) \<noteq> (58::nat)" "of_char (digit n) \<noteq> (45::nat)"
    using n d by simp_all
  then show ?thesis by auto
qed

lemma show_nat_digits: "c \<in> set (show_nat n) \<Longrightarrow> c \<noteq> CHR '':'' \<and> c \<noteq> CHR ''-''"
proof (induction n arbitrary: c rule: show_nat.induct)
  case (1 n)
  show ?case
  proof (cases "n < 10")
    case True
    with "1.prems" have "c = digit n"
      by (subst (asm) show_nat.simps) simp
    with True show ?thesis by (simp add: digit_not_colon)
  next
    case False
    with "1.prems" have "c \<in> set (show_nat (n div 10)) \<or> c = digit (n mod 10)"
      by (subst (asm) show_nat.simps) auto
    then show ?thesis
    proof
      assume "c \<in> set (show_nat (n div 10))"
      with "1.IH" False show ?thesis by blast
    next
      assume "c = digit (n mod 10)"
      then show ?thesis by (simp add: digit_not_colon)
    qed
  qed
qed

lemma show_nat_not_Nil: "show_nat n \<noteq> []"
  by (subst show_nat.simps) simp

lemma show_int_no_colon: "c \<in> set (show_int i) \<Longrightarrow> c \<noteq> CHR '':''"
  by (auto simp: show_int_def dest: show_nat_digits split: if_splits)

lemma show_int_inj: "show_int i = show_int j \<Longrightarrow> i = j"
proof -
  assume a: "show_int i = show_int j"
  have hd: "hd (show_nat n) \<noteq> CHR ''-''" for n
    using show_nat_digits [of "hd (show_nat n)" n] show_nat_not_Nil [of n] by simp
  have neq: "CHR ''-'' # show_nat m \<noteq> show_nat n" for m n
    using hd [of n] by (metis list.sel(1))
  show ?thesis
  proof (cases "i < 0")
    case True
    show ?thesis
    proof (cases "j < 0")
      case j: True
      with True a have "show_nat (nat (- i)) = show_nat (nat (- j))"
        by (simp add: show_int_def)
      then have "nat (- i) = nat (- j)" by (rule show_nat_inj)
      with True j show ?thesis by simp
    next
      case False
      with True a neq show ?thesis by (simp add: show_int_def)
    qed
  next
    case False
    show ?thesis
    proof (cases "j < 0")
      case True
      with False a neq [of "nat (- j)" "nat i"] show ?thesis by (simp add: show_int_def)
    next
      case j: False
      with False a have "show_nat (nat i) = show_nat (nat j)"
        by (simp add: show_int_def)
      then have "nat i = nat j" by (rule show_nat_inj)
      with False j show ?thesis by simp
    qed
  qed
qed

lemma split_at_colon:
  assumes "CHR '':'' \<notin> set a" and "CHR '':'' \<notin> set a'"
    and "a @ CHR '':'' # r = a' @ CHR '':'' # r'"
  shows "a = a' \<and> r = r'"
  using assms
proof (induction a arbitrary: a')
  case Nil
  then show ?case by (cases a') auto
next
  case (Cons x xs)
  then show ?case by (cases a') auto
qed

lemma show_bool_no_colon: "CHR '':'' \<notin> set (show_bool b)"
  by (simp add: show_bool_def)

lemma show_bool_inj: "show_bool b = show_bool b' \<Longrightarrow> b = b'"
  by (auto simp: show_bool_def split: if_splits)

lemma split_at_last_colon:
  assumes "CHR '':'' \<notin> set t" and "CHR '':'' \<notin> set t'"
    and "q @ CHR '':'' # t = q' @ CHR '':'' # t'"
  shows "q = q' \<and> t = t'"
proof -
  from assms(3) have "rev (q @ CHR '':'' # t) = rev (q' @ CHR '':'' # t')" by simp
  then have "rev t @ CHR '':'' # rev q = rev t' @ CHR '':'' # rev q'" by simp
  with split_at_colon [of "rev t" "rev t'" "rev q" "rev q'"] assms(1,2)
  show ?thesis by simp
qed

text \<open>
  Claim C7. The construction of the cache key is a function of the descriptor, and it is
  injective: two descriptors have the same key exactly when they agree in page, page
  size, search term and visibility flag.
\<close>

theorem cache_key_injective:
  "GetEchoPageCacheKey p ps q b = GetEchoPageCacheKey p' ps' q' b'
     \<longleftrightarrow> p = p' \<and> ps = ps' \<and> q = q' \<and> b = b'"
proof
  assume eq: "GetEchoPageCacheKey p ps q b = GetEchoPageCacheKey p' ps' q' b'"
  let ?r = "show_int (sint ps) @ CHR '':'' # (q @ CHR '':'' # show_bool b)"
  let ?r' = "show_int (sint ps') @ CHR '':'' # (q' @ CHR '':'' # show_bool b')"
  from eq have "show_int (sint p) @ CHR '':'' # ?r = show_int (sint p') @ CHR '':'' # ?r'"
    by (simp add: GetEchoPageCacheKey_def)
  with split_at_colon [of "show_int (sint p)" "show_int (sint p')" ?r ?r']
  have 1: "show_int (sint p) = show_int (sint p')" and r: "?r = ?r'"
    using show_int_no_colon by blast+
  from split_at_colon [of "show_int (sint ps)" "show_int (sint ps')"
      "q @ CHR '':'' # show_bool b" "q' @ CHR '':'' # show_bool b'"] r
  have 2: "show_int (sint ps) = show_int (sint ps')"
    and t: "q @ CHR '':'' # show_bool b = q' @ CHR '':'' # show_bool b'"
    using show_int_no_colon by blast+
  from split_at_last_colon [OF show_bool_no_colon show_bool_no_colon t]
  have 3: "q = q'" and 4: "show_bool b = show_bool b'" by simp_all
  from 1 have "sint p = sint p'" by (rule show_int_inj)
  then have "p = p'" by (rule signed_word_eqI)
  moreover from 2 have "sint ps = sint ps'" by (rule show_int_inj)
  then have "ps = ps'" by (rule signed_word_eqI)
  moreover from 4 have "b = b'" by (rule show_bool_inj)
  ultimately show "p = p' \<and> ps = ps' \<and> q = q' \<and> b = b'" using 3 by simp
next
  assume "p = p' \<and> ps = ps' \<and> q = q' \<and> b = b'"
  then show "GetEchoPageCacheKey p ps q b = GetEchoPageCacheKey p' ps' q' b'" by simp
qed

theorem cache_key_injective_witness:
  "GetEchoPageCacheKey 1 10 ''a:b'' False \<noteq> GetEchoPageCacheKey 2 10 ''a:b'' False
   \<and> GetEchoPageCacheKey 1 10 ''a:b'' False = ''1:10:a:b:false''
   \<and> GetEchoPageCacheKey 2 10 ''a:b'' False = ''2:10:a:b:false''"
proof -
  have "(1 :: go_int) \<noteq> 2" by simp
  with cache_key_injective [of 1 10 "''a:b''" False 2 10 "''a:b''" False]
  have "GetEchoPageCacheKey 1 10 ''a:b'' False \<noteq> GetEchoPageCacheKey 2 10 ''a:b'' False"
    by blast
  moreover have "GetEchoPageCacheKey 1 10 ''a:b'' False = ''1:10:a:b:false''" by code_simp
  moreover have "GetEchoPageCacheKey 2 10 ''a:b'' False = ''2:10:a:b:false''" by code_simp
  ultimately show ?thesis by blast
qed

section \<open>Trimmed content\<close>

lemma prefix_free_white_space: "prefix_free white_space"
  by code_simp

lemma prefix_free_rev_white_space: "prefix_free (map rev white_space)"
  by code_simp

lemma white_space_not_Nil: "[] \<notin> set white_space" "[] \<notin> set (map rev white_space)"
  by (simp_all add: white_space_def)

lemma lead_bytes: "set (concat (map tl white_space)) \<inter> set (map hd white_space) = {}"
  by code_simp


lemma prefix_freeD:
  assumes "prefix_free ws" "w \<in> set ws" "w' \<in> set ws" "take (length w) w' = w"
  shows "w = w'"
  using assms by (auto simp: prefix_free_def list_all_iff)

lemma strip_one_SomeD:
  assumes "strip_one ws s = Some r"
  shows "\<exists>w \<in> set ws. w \<noteq> [] \<and> s = w @ r"
proof -
  from assms obtain w where w: "find (\<lambda>w. w \<noteq> [] \<and> take (length w) s = w) ws = Some w"
    and r: "r = drop (length w) s"
    by (auto simp: strip_one_def split: option.splits)
  from w have "w \<in> set ws" "w \<noteq> []" "take (length w) s = w"
    by (auto simp: find_Some_iff)
  with r have "s = w @ r" using append_take_drop_id [of "length w" s] by simp
  with \<open>w \<in> set ws\<close> \<open>w \<noteq> []\<close> show ?thesis by blast
qed

lemma strip_one_NoneD:
  assumes "strip_one ws s = None" "w \<in> set ws" "w \<noteq> []"
  shows "take (length w) s \<noteq> w"
  using assms by (auto simp: strip_one_def find_None_iff split: option.splits)

lemma strip_one_append:
  assumes pf: "prefix_free ws" and w: "w \<in> set ws" "w \<noteq> []"
  shows "strip_one ws (w @ x) = Some x"
proof -
  let ?P = "\<lambda>v. v \<noteq> [] \<and> take (length v) (w @ x) = v"
  from w have "\<exists>v \<in> set ws. ?P v" by auto
  then obtain v where v: "find ?P ws = Some v"
    by (cases "find ?P ws") (auto simp: find_None_iff)
  then have vs: "v \<in> set ws" and vp: "take (length v) (w @ x) = v"
    by (auto simp: find_Some_iff)
  have "v = w"
  proof (cases "length v \<le> length w")
    case True
    with vp have "take (length v) w = v" by simp
    from prefix_freeD [OF pf vs w(1) this] show ?thesis .
  next
    case False
    have "take (length w) v = take (length w) (take (length v) (w @ x))"
      using vp by simp
    also have "\<dots> = w" using False by (simp add: min_def)
    finally have "take (length w) v = w" .
    from prefix_freeD [OF pf w(1) vs this] show ?thesis by simp
  qed
  with v show ?thesis by (simp add: strip_one_def)
qed

lemma strip_one_append_rest:
  assumes "prefix_free ws" "strip_one ws c = Some r"
  shows "strip_one ws (c @ x) = Some (r @ x)"
proof -
  from strip_one_SomeD [OF assms(2)] obtain w where "w \<in> set ws" "w \<noteq> []" "c = w @ r"
    by blast
  with strip_one_append [OF assms(1), of w "r @ x"] show ?thesis by simp
qed

lemma trim_front_run:
  assumes "prefix_free ws" "[] \<notin> set ws" "run ws pre"
  shows "trim_front ws (pre @ x) = trim_front ws x"
  using assms(3)
proof (induction rule: run.induct)
  case empty
  show ?case by simp
next
  case (rune w s)
  then have "w \<noteq> []" using assms(2) by auto
  from strip_one_append [OF assms(1) rune.hyps(1) this, of "s @ x"]
  have "trim_front ws ((w @ s) @ x) = trim_front ws (s @ x)"
    by (subst trim_front.simps) simp
  with rune.IH show ?case by simp
qed

lemma trim_front_fixed: "strip_one ws (trim_front ws s) = None"
proof (induction ws s rule: trim_front.induct)
  case (1 ws s)
  show ?case
  proof (cases "strip_one ws s")
    case None
    then show ?thesis by (subst trim_front.simps) simp
  next
    case (Some r)
    with 1 show ?thesis by (subst trim_front.simps) simp
  qed
qed

lemma trim_front_split: "\<exists>pre. run ws pre \<and> s = pre @ trim_front ws s"
proof (induction ws s rule: trim_front.induct)
  case (1 ws s)
  show ?case
  proof (cases "strip_one ws s")
    case None
    then have "trim_front ws s = s" by (subst trim_front.simps) simp
    then show ?thesis using run.empty [of ws] by (metis append_Nil)
  next
    case (Some r)
    then have t: "trim_front ws s = trim_front ws r" by (subst trim_front.simps) simp
    from 1 [OF Some] obtain pre where pre: "run ws pre" "r = pre @ trim_front ws r" by blast
    from strip_one_SomeD [OF Some] obtain w where w: "w \<in> set ws" "s = w @ r" by blast
    from run.rune [OF w(1) pre(1)] have "run ws (w @ pre)" .
    moreover from w(2) pre(2) t have "s = (w @ pre) @ trim_front ws s" by simp
    ultimately show ?thesis by blast
  qed
qed

lemma run_append: "run ws a \<Longrightarrow> run ws b \<Longrightarrow> run ws (a @ b)"
proof (induction rule: run.induct)
  case empty
  then show ?case by simp
next
  case (rune w s)
  from run.rune [OF rune.hyps(1) rune.IH [OF rune.prems]]
  show ?case by simp
qed

lemma run_rev: "run ws s \<Longrightarrow> run (map rev ws) (rev s)"
proof (induction rule: run.induct)
  case empty
  show ?case by (simp add: run.empty)
next
  case (rune w s)
  have "run (map rev ws) (rev w @ [])"
    using rune.hyps(1) by (intro run.rune run.empty) simp
  then have "run (map rev ws) (rev w)" by simp
  from run_append [OF rune.IH this] show ?case by simp
qed

lemma run_rev_back: "run (map rev ws) s \<Longrightarrow> run ws (rev s)"
proof -
  assume "run (map rev ws) s"
  from run_rev [OF this] have "run (map rev (map rev ws)) (rev s)" .
  moreover have "map rev (map rev ws) = ws" by (simp add: map_idI)
  ultimately show ?thesis by simp
qed

lemma run_hd:
  assumes "run ws x" "x \<noteq> []" "[] \<notin> set ws"
  shows "hd x \<in> set (map hd ws)"
  using assms
proof (induction rule: run.induct)
  case empty
  then show ?case by simp
next
  case (rune w s)
  then have "w \<noteq> []" by auto
  with rune.hyps(1) show ?case by (auto simp: image_iff)
qed

lemma strip_one_sync:
  assumes none: "strip_one white_space m = None" and m: "m \<noteq> []"
    and x: "run white_space x"
  shows "strip_one white_space (m @ x) = None"
proof (rule ccontr)
  assume "strip_one white_space (m @ x) \<noteq> None"
  then obtain r where "strip_one white_space (m @ x) = Some r" by auto
  from strip_one_SomeD [OF this] obtain w where w: "w \<in> set white_space" "w \<noteq> []"
    and eq: "m @ x = w @ r" by blast
  show False
  proof (cases "length w \<le> length m")
    case True
    have "take (length w) (m @ x) = take (length w) (w @ r)" by (simp add: eq)
    with True have "take (length w) m = w" by simp
    with strip_one_NoneD [OF none w] show False by simp
  next
    case False
    then have lm: "length m < length w" by simp
    have "take (length w) (m @ x) = take (length w) (w @ r)" by (simp add: eq)
    with lm have wm: "w = m @ take (length w - length m) x" by simp
    let ?t = "take (length w - length m) x"
    have t: "?t \<noteq> []"
    proof
      assume "?t = []"
      with wm have "w = m" by simp
      with lm show False by simp
    qed
    then have xn: "x \<noteq> []" by auto
    have "hd ?t = hd x" using lm by (simp add: hd_take)
    moreover have "hd x \<in> set (map hd white_space)"
      using run_hd [OF x xn white_space_not_Nil(1)] .
    moreover have "hd ?t \<in> set (tl w)"
    proof -
      from m obtain a ms where "m = a # ms" by (cases m) auto
      with wm have "w = a # (ms @ ?t)" by simp
      then have "tl w = ms @ ?t" by (metis list.sel(3))
      moreover from t have "hd ?t \<in> set ?t" by (rule hd_in_set)
      ultimately show ?thesis by simp
    qed
    then have "hd ?t \<in> set (concat (map tl white_space))"
      using w(1) by auto
    ultimately show False using lead_bytes by auto
  qed
qed


lemma TrimLeft_run: "space_run pre \<Longrightarrow> TrimLeft (pre @ x) = TrimLeft x"
  unfolding space_run_def TrimLeft_def
  by (rule trim_front_run [OF prefix_free_white_space white_space_not_Nil(1)])

lemma TrimRight_run:
  assumes "space_run post"
  shows "TrimRight (x @ post) = TrimRight x"
proof -
  from assms have "run (map rev white_space) (rev post)"
    unfolding space_run_def by (rule run_rev)
  from trim_front_run [OF prefix_free_rev_white_space white_space_not_Nil(2) this, of "rev x"]
  show ?thesis by (simp add: TrimRight_def)
qed

lemma TrimSpace_trailing_run:
  assumes post: "space_run post"
  shows "ws = white_space \<Longrightarrow>
    TrimRight (trim_front ws (c @ post)) = TrimRight (trim_front ws c)"
proof (induction ws c rule: trim_front.induct)
  case (1 ws s)
  from "1.prems" have ws: "ws = white_space" .
  show ?case
  proof (cases "strip_one ws s")
    case (Some r)
    from strip_one_append_rest [OF prefix_free_white_space, of s r post] Some ws
    have "strip_one ws (s @ post) = Some (r @ post)" by simp
    then have "trim_front ws (s @ post) = trim_front ws (r @ post)"
      by (subst trim_front.simps) simp
    moreover from Some have "trim_front ws s = trim_front ws r"
      by (subst trim_front.simps) simp
    ultimately show ?thesis using 1 Some by simp
  next
    case None
    then have same: "trim_front ws s = s" by (subst trim_front.simps) simp
    show ?thesis
    proof (cases "s = []")
      case True
      have "trim_front ws (post @ []) = trim_front ws []"
        using trim_front_run [OF prefix_free_white_space white_space_not_Nil(1), of post "[]"]
          post ws by (simp add: space_run_def)
      with True show ?thesis by simp
    next
      case False
      from strip_one_sync [of s post] None False post ws
      have "strip_one ws (s @ post) = None" by (simp add: space_run_def)
      then have "trim_front ws (s @ post) = s @ post" by (subst trim_front.simps) simp
      with same TrimRight_run [OF post, of s] show ?thesis by simp
    qed
  qed
qed

lemma TrimSpace_surrounded:
  assumes "space_run pre" "space_run post"
  shows "TrimSpace (pre @ c @ post) = TrimSpace c"
proof -
  have "TrimSpace (pre @ c @ post) = TrimRight (TrimLeft (c @ post))"
    by (simp add: TrimSpace_def TrimLeft_run [OF assms(1)])
  also have "\<dots> = TrimRight (TrimLeft c)"
    using TrimSpace_trailing_run [OF assms(2), of white_space c] by (simp add: TrimLeft_def)
  finally show ?thesis by (simp add: TrimSpace_def)
qed

lemma TrimRight_split: "\<exists>post. space_run post \<and> m = TrimRight m @ post"
proof -
  from trim_front_split [of "map rev white_space" "rev m"]
  obtain p where p: "run (map rev white_space) p"
    and eq: "rev m = p @ trim_front (map rev white_space) (rev m)" by blast
  from eq have "rev (rev m) = rev (p @ trim_front (map rev white_space) (rev m))" by simp
  then have "m = TrimRight m @ rev p" by (simp add: TrimRight_def)
  moreover from run_rev_back [OF p] have "space_run (rev p)" by (simp add: space_run_def)
  ultimately show ?thesis by blast
qed

lemma TrimSpace_split:
  "\<exists>pre post. space_run pre \<and> space_run post \<and> s = pre @ TrimSpace s @ post"
proof -
  from trim_front_split [of white_space s]
  obtain pre where pre: "space_run pre" "s = pre @ TrimLeft s"
    by (auto simp: space_run_def TrimLeft_def)
  from TrimRight_split [of "TrimLeft s"]
  obtain post where post: "space_run post" "TrimLeft s = TrimRight (TrimLeft s) @ post"
    by blast
  from pre(2) post(2) have "s = pre @ TrimSpace s @ post"
    by (simp add: TrimSpace_def)
  with pre(1) post(1) show ?thesis by blast
qed

lemma TrimSpace_no_leading: "\<not> leading_space (TrimSpace s)"
proof
  assume "leading_space (TrimSpace s)"
  then obtain r where r: "strip_one white_space (TrimRight (TrimLeft s)) = Some r"
    by (auto simp: leading_space_def TrimSpace_def)
  from TrimRight_split [of "TrimLeft s"]
  obtain post where post: "TrimLeft s = TrimRight (TrimLeft s) @ post" by blast
  from strip_one_append_rest [OF prefix_free_white_space r, of post] post
  have "strip_one white_space (TrimLeft s) = Some (r @ post)" by simp
  moreover have "strip_one white_space (TrimLeft s) = None"
    unfolding TrimLeft_def by (rule trim_front_fixed)
  ultimately show False by simp
qed

lemma TrimSpace_no_trailing: "\<not> trailing_space (TrimSpace s)"
  by (simp add: trailing_space_def TrimSpace_def TrimRight_def trim_front_fixed)

text \<open>
  Claim C9. When \<open>CreateEcho\<close> succeeds, the row it has added holds the content of its
  argument with the leading and the trailing white space removed: the stored content is
  \<open>TrimSpace\<close> of the input, it neither begins nor ends with a white-space rune, and the
  input is the stored content between two runs of white space. In particular, two echos
  whose contents are the same text between runs of white space are stored with
  identical content.
\<close>

theorem CreateEcho_trims_content:
  assumes "CreateEcho s e = (None, s')"
  shows "(\<exists>row. tbl_echos (db s') = tbl_echos (db s) @ [row]
            \<and> Content row = TrimSpace (Content e)
            \<and> \<not> leading_space (Content row) \<and> \<not> trailing_space (Content row)
            \<and> (\<exists>pre post. space_run pre \<and> space_run post
                  \<and> Content e = pre @ Content row @ post))
       \<and> (\<forall>e' t c pre post pre' post'.
            CreateEcho s e' = (None, t)
            \<and> space_run pre \<and> space_run post \<and> space_run pre' \<and> space_run post'
            \<and> Content e = pre @ c @ post \<and> Content e' = pre' @ c @ post'
            \<longrightarrow> Content (last (tbl_echos (db t))) = Content (last (tbl_echos (db s'))))"
proof -
  have stored: "\<exists>row. tbl_echos (db u) = tbl_echos (db s) @ [row]
      \<and> Content row = TrimSpace (Content x)" if "CreateEcho s x = (None, u)" for x u
    using Create_ok(1) [OF CreateEcho_ok [OF that]] by auto
  from stored [OF assms] obtain row where row: "tbl_echos (db s') = tbl_echos (db s) @ [row]"
    "Content row = TrimSpace (Content e)" by blast
  have 1: "\<exists>row. tbl_echos (db s') = tbl_echos (db s) @ [row]
            \<and> Content row = TrimSpace (Content e)
            \<and> \<not> leading_space (Content row) \<and> \<not> trailing_space (Content row)
            \<and> (\<exists>pre post. space_run pre \<and> space_run post
                  \<and> Content e = pre @ Content row @ post)"
    using row TrimSpace_split [of "Content e"] TrimSpace_no_leading [of "Content e"]
      TrimSpace_no_trailing [of "Content e"]
    by auto
  have 2: "Content (last (tbl_echos (db t))) = Content (last (tbl_echos (db s')))"
    if "CreateEcho s e' = (None, t)"
      and "space_run pre" "space_run post" "space_run pre'" "space_run post'"
      and "Content e = pre @ c @ post" "Content e' = pre' @ c @ post'"
    for e' t c pre post pre' post'
  proof -
    from stored [OF that(1)] obtain row' where row': "tbl_echos (db t) = tbl_echos (db s) @ [row']"
      "Content row' = TrimSpace (Content e')" by blast
    have "TrimSpace (Content e') = TrimSpace c"
      using TrimSpace_surrounded [OF that(4,5)] that(7) by simp
    moreover have "TrimSpace (Content e) = TrimSpace c"
      using TrimSpace_surrounded [OF that(2,3)] that(6) by simp
    ultimately show ?thesis using row row' by simp
  qed
  from 1 2 show ?thesis by blast
qed

lemma space_run_examples:
  "space_run '' ''" "space_run [CHR 0xC2, CHR 0xA0]" "space_run [CHR 0x09, CHR 0xE2, CHR 0x80, CHR 0x83]"
proof -
  have e: "run white_space []" by (rule run.empty)
  have "run white_space ('' '' @ [])"
    by (rule run.rune [OF _ e]) (simp add: white_space_def)
  then show "space_run '' ''" by (simp add: space_run_def)
  have "run white_space ([CHR 0xC2, CHR 0xA0] @ [])"
    by (rule run.rune [OF _ e]) (simp add: white_space_def)
  then show "space_run [CHR 0xC2, CHR 0xA0]" by (simp add: space_run_def)
  have "run white_space ([CHR 0xE2, CHR 0x80, CHR 0x83] @ [])"
    by (rule run.rune [OF _ e]) (simp add: white_space_def)
  then have "run white_space ([CHR 0x09] @ ([CHR 0xE2, CHR 0x80, CHR 0x83] @ []))"
    by (rule run.rune [rotated]) (simp add: white_space_def)
  then show "space_run [CHR 0x09, CHR 0xE2, CHR 0x80, CHR 0x83]" by (simp add: space_run_def)
qed

theorem CreateEcho_trims_content_witness:
  "fst (CreateEcho (init 4 rows2) greeting) = None
   \<and> fst (CreateEcho (init 4 rows2) padded) = None
   \<and> Content greeting = '' '' @ ''hello'' @ '' ''
   \<and> Content padded = [CHR 0xC2, CHR 0xA0] @ ''hello'' @ [CHR 0x09, CHR 0xE2, CHR 0x80, CHR 0x83]
   \<and> Content (last (tbl_echos (db (snd (CreateEcho (init 4 rows2) greeting))))) = ''hello''
   \<and> Content (last (tbl_echos (db (snd (CreateEcho (init 4 rows2) padded)))))
       = Content (last (tbl_echos (db (snd (CreateEcho (init 4 rows2) greeting)))))"
proof -
  let ?s = "init 4 rows2"
  have g: "fst (CreateEcho ?s greeting) = None" by code_simp
  have p: "fst (CreateEcho ?s padded) = None" by code_simp
  from g have hg: "CreateEcho ?s greeting = (None, snd (CreateEcho ?s greeting))"
    by (simp add: prod_eq_iff)
  from p have hp: "CreateEcho ?s padded = (None, snd (CreateEcho ?s padded))"
    by (simp add: prod_eq_iff)
  have cg: "Content greeting = '' '' @ ''hello'' @ '' ''" by (simp add: greeting_def)
  have cp: "Content padded = [CHR 0xC2, CHR 0xA0] @ ''hello'' @ [CHR 0x09, CHR 0xE2, CHR 0x80, CHR 0x83]"
    by (simp add: padded_def)
  have v: "Content (last (tbl_echos (db (snd (CreateEcho ?s greeting))))) = ''hello''"
    by code_simp
  from CreateEcho_trims_content [OF hg] hp cg cp space_run_examples
  have "Content (last (tbl_echos (db (snd (CreateEcho ?s padded)))))
       = Content (last (tbl_echos (db (snd (CreateEcho ?s greeting)))))"
    by blast
  with g p cg cp v show ?thesis by blast
qed

end
